theory Spec2Isabelle
  imports Main
begin

section \<open>Numeric literal scanning of the lexer (src/lexer/numeric.ts)\<close>

text \<open>
  The development embeds \<^verbatim>\<open>scanNumber\<close> and \<^verbatim>\<open>scanDecimalDigitsOrSeparator\<close>
  of \<^verbatim>\<open>src/lexer/numeric.ts\<close>. A thrown error (\<^verbatim>\<open>report\<close>) is the left
  summand of the result, the mutated parser object is passed and returned explicitly,
  and every \<^verbatim>\<open>while\<close> loop is a recursive function with a termination proof.
\<close>

subsection \<open>Source text and code points\<close>

text \<open>
  A JavaScript string is a sequence of UTF-16 code units, here natural numbers.
  \<^verbatim>\<open>charCodeAt\<close> yields \<^verbatim>\<open>NaN\<close> beyond the end of the string: \<open>None\<close>.
\<close>

type_synonym jsString = "nat list"
type_synonym codepoint = "nat option"

definition str :: "string \<Rightarrow> jsString" where
  "str s = map of_char s"

definition charCodeAt :: "jsString \<Rightarrow> nat \<Rightarrow> codepoint" where
  "charCodeAt s i = (if i < length s then Some (s ! i) else None)"

definition slice :: "jsString \<Rightarrow> nat \<Rightarrow> nat \<Rightarrow> jsString" where
  \<comment> \<open>\<^verbatim>\<open>String.prototype.slice\<close> on non-negative indices: empty when the end is not after the start.\<close>
  "slice s a b = take (b - a) (drop a s)"

definition substring :: "jsString \<Rightarrow> nat \<Rightarrow> nat \<Rightarrow> jsString" where
  \<comment> \<open>\<^verbatim>\<open>String.prototype.substring\<close> swaps its arguments when the start is after the end.\<close>
  "substring s a b = slice s (min a b) (max a b)"

text \<open>The members of the \<^verbatim>\<open>Chars\<close> enumeration that the scanner names: their ASCII codes.\<close>

abbreviation Chars_Zero :: nat where "Chars_Zero \<equiv> 48"
abbreviation Chars_Period :: nat where "Chars_Period \<equiv> 46"
abbreviation Chars_Underscore :: nat where "Chars_Underscore \<equiv> 95"
abbreviation Chars_LowerB :: nat where "Chars_LowerB \<equiv> 98"
abbreviation Chars_LowerE :: nat where "Chars_LowerE \<equiv> 101"
abbreviation Chars_LowerN :: nat where "Chars_LowerN \<equiv> 110"
abbreviation Chars_LowerO :: nat where "Chars_LowerO \<equiv> 111"
abbreviation Chars_LowerX :: nat where "Chars_LowerX \<equiv> 120"

definition or32 :: "codepoint \<Rightarrow> nat" where
  \<comment> \<open>\<^verbatim>\<open>char | 32\<close>; \<^verbatim>\<open>NaN | 32\<close> is 32.\<close>
  "or32 char = (case char of None \<Rightarrow> 32 | Some c \<Rightarrow> or c 32)"

subsection \<open>Bit sets of the lexer\<close>

text \<open>
  The enumerations \<^verbatim>\<open>CharFlags\<close>, \<^verbatim>\<open>NumberKind\<close>, \<^verbatim>\<open>Context\<close> and
  \<^verbatim>\<open>Flags\<close> are bit masks whose declarations are in other files of the lexer. A
  mask is modelled as the set of its bits, \<^verbatim>\<open>a & b\<close> as \<open>a \<inter> b \<noteq> {}\<close> and a test of
  one bit as membership.
\<close>

datatype CharFlags =
    CharFlags_IdentifierStart
  | CharFlags_Decimal
  | CharFlags_Octal
  | CharFlags_Hex
  | CharFlags_Binary
  | CharFlags_Exponent
  | CharFlags_ImplicitOctalDigits
  | CharFlags_Underscore

datatype NumberKind =
    NumberKind_ImplicitOctal
  | NumberKind_Binary
  | NumberKind_Octal
  | NumberKind_Hex
  | NumberKind_Decimal
  | NumberKind_DecimalWithLeadingZero
  | NumberKind_Float

datatype Context = Context_Strict | Context_OptionsRaw | Context_OptionsWebCompat

datatype Flags = Flags_Octals

definition DecimalNumberKind :: "NumberKind set" where
  \<comment> \<open>Modelled from the spec: the declaration of \<^verbatim>\<open>NumberKind\<close> is not in numeric.ts. The
      kinds scanned as decimal digits are the plain decimal and the decimal with a leading zero
      (steps 3 and 4 of the numeric sub-machine).\<close>
  "DecimalNumberKind = {NumberKind_Decimal, NumberKind_DecimalWithLeadingZero}"

definition ValidBigIntKind :: "NumberKind set" where
  \<comment> \<open>Modelled from the spec: the declaration of \<^verbatim>\<open>NumberKind\<close> is not in numeric.ts.
      Step 6: only decimal, hex, octal (0o) and binary (0b) integer forms may carry the BigInt
      suffix; floats, decimals with a leading zero and legacy octals may not.\<close>
  "ValidBigIntKind = {NumberKind_Decimal, NumberKind_Hex, NumberKind_Octal, NumberKind_Binary}"

definition CharTypes :: "codepoint \<Rightarrow> CharFlags set" where
  \<comment> \<open>Modelled from the spec: the table \<^verbatim>\<open>CharTypes\<close> is not in numeric.ts. It maps a code
      point to the set of its lexical categories (4.1); an index outside the table, or
      \<^verbatim>\<open>NaN\<close>, has none. The ASCII identifier starts are the letters, dollar, underscore and the
      backslash that opens a Unicode escape.\<close>
  "CharTypes char = (case char of None \<Rightarrow> {} | Some c \<Rightarrow>
     (if 48 \<le> c \<and> c \<le> 57 then {CharFlags_Decimal, CharFlags_Hex} else {}) \<union>
     (if 48 \<le> c \<and> c \<le> 55 then {CharFlags_Octal} else {}) \<union>
     (if c = 48 \<or> c = 49 then {CharFlags_Binary} else {}) \<union>
     (if c = 56 \<or> c = 57 then {CharFlags_ImplicitOctalDigits} else {}) \<union>
     (if (65 \<le> c \<and> c \<le> 70) \<or> (97 \<le> c \<and> c \<le> 102) then {CharFlags_Hex} else {}) \<union>
     (if (65 \<le> c \<and> c \<le> 90) \<or> (97 \<le> c \<and> c \<le> 122) \<or> c = 36 \<or> c = 92 \<or> c = 95
      then {CharFlags_IdentifierStart} else {}) \<union>
     (if c = 95 then {CharFlags_Underscore} else {}) \<union>
     (if c = 43 \<or> c = 45 then {CharFlags_Exponent} else {}))"

definition isIdentifierStart :: "(nat \<Rightarrow> bool) \<Rightarrow> codepoint \<Rightarrow> bool" where
  \<comment> \<open>Modelled from the spec: \<^verbatim>\<open>isIdentifierStart\<close> is not in numeric.ts. ASCII code points are
      classified by \<^verbatim>\<open>CharTypes\<close>; for the others the Unicode table of the lexer, which is not
      in numeric.ts either, is the parameter \<open>unicodeLookup\<close>. \<^verbatim>\<open>NaN\<close> is no identifier
      start.\<close>
  "isIdentifierStart unicodeLookup char = (case char of None \<Rightarrow> False | Some c \<Rightarrow>
     if c \<le> 0x7F then CharFlags_IdentifierStart \<in> CharTypes char else unicodeLookup c)"

definition toHex :: "codepoint \<Rightarrow> nat" where
  \<comment> \<open>Modelled from the spec: \<^verbatim>\<open>toHex\<close> is not in numeric.ts. The value of a hex digit; the
      scanner calls it on hex digits only.\<close>
  "toHex char = (case char of None \<Rightarrow> 0 | Some c \<Rightarrow>
     if c \<le> 57 then c - 48 else if c \<le> 70 then c - 55 else c - 87)"

definition minusZero :: "codepoint \<Rightarrow> nat" where
  \<comment> \<open>\<^verbatim>\<open>char - Chars.Zero\<close>; the scanner evaluates it on digits only, where it is not negative.\<close>
  "minusZero char = (case char of None \<Rightarrow> 0 | Some c \<Rightarrow> c - Chars_Zero)"

subsection \<open>JavaScript numbers and values\<close>

text \<open>
  A JavaScript number is an IEEE double. The accumulators of the scanner hold
  non-negative integers or \<^verbatim>\<open>Infinity\<close>; products and sums are rounded to the nearest
  double, ties to even. Below \<open>2 ^ 53\<close> every integer is a double.
\<close>

datatype number = Fin nat | PosInf

fun bitLength :: "nat \<Rightarrow> nat" where
  "bitLength n = (if n = 0 then 0 else Suc (bitLength (n div 2)))"

declare bitLength.simps [simp del]

definition roundDouble :: "nat \<Rightarrow> number" where
  "roundDouble n =
     (if n < 2 ^ 53 then Fin n
      else
        let e = bitLength n - 53;
            q = n div 2 ^ e;
            r = n mod 2 ^ e;
            h = 2 ^ (e - 1);
            m = (if h < r \<or> (r = h \<and> odd q) then q + 1 else q) * 2 ^ e
        in if 2 ^ 1024 \<le> m then PosInf else Fin m)"

fun jsMul :: "number \<Rightarrow> nat \<Rightarrow> number" where
  \<comment> \<open>the product of an accumulator and a positive constant\<close>
  "jsMul (Fin a) k = roundDouble (a * k)"
| "jsMul PosInf k = PosInf"

fun jsAdd :: "number \<Rightarrow> nat \<Rightarrow> number" where
  "jsAdd (Fin a) d = roundDouble (a + d)"
| "jsAdd PosInf d = PosInf"

text \<open>
  The local \<^verbatim>\<open>value\<close> and the field \<^verbatim>\<open>tokenValue\<close> have type \<^verbatim>\<open>any\<close>: a number
  or a string. The conversions of a text to a double are computed where the text is a
  sequence of decimal digits, and are kept as unevaluated terms otherwise.
\<close>

datatype any =
    Undefined
  | Num number
  | Str jsString
  | Concat any jsString
  | ToNumber any
  | ParseInt any
  | ParseFloat jsString

fun decimalValue :: "jsString \<Rightarrow> nat" where
  "decimalValue [] = 0"
| "decimalValue (c # cs) = (c - 48) * 10 ^ length cs + decimalValue cs"

definition isDigit :: "nat \<Rightarrow> bool" where
  "isDigit c = (48 \<le> c \<and> c \<le> 57)"

function numberToString :: "nat \<Rightarrow> jsString" where
  "numberToString n = (if n < 10 then [48 + n] else numberToString (n div 10) @ [48 + n mod 10])"
  by pat_completeness auto
termination
  by (relation "measure id") auto

declare numberToString.simps [simp del]

fun concatAny :: "any \<Rightarrow> jsString \<Rightarrow> any" where
  \<comment> \<open>\<^verbatim>\<open>value + s\<close> for a string \<open>s\<close>; a number from \<open>10 ^ 21\<close> on prints in exponent notation\<close>
  "concatAny (Num (Fin n)) s =
     (if n < 10 ^ 21 then Str (numberToString n @ s) else Concat (Num (Fin n)) s)"
| "concatAny (Num PosInf) s = Str (str ''Infinity'' @ s)"
| "concatAny (Str t) s = Str (t @ s)"
| "concatAny v s = Concat v s"

fun toNumber :: "any \<Rightarrow> any" where
  \<comment> \<open>unary plus\<close>
  "toNumber (Num n) = Num n"
| "toNumber (Str s) =
     (if s = [] then Num (Fin 0)
      else if list_all isDigit s then Num (roundDouble (decimalValue s))
      else ToNumber (Str s))"
| "toNumber v = ToNumber v"

fun parseInt10 :: "any \<Rightarrow> any" where
  \<comment> \<open>\<^verbatim>\<open>parseInt(value, 0xa)\<close>: the longest prefix of decimal digits of the string of the value\<close>
  "parseInt10 (Num (Fin n)) = (if n < 10 ^ 21 then Num (Fin n) else ParseInt (Num (Fin n)))"
| "parseInt10 (Str s) =
     (if takeWhile isDigit s \<noteq> [] then Num (roundDouble (decimalValue (takeWhile isDigit s)))
      else ParseInt (Str s))"
| "parseInt10 v = ParseInt v"

definition parseFloat :: "jsString \<Rightarrow> any" where
  \<comment> \<open>the leading decimal digits, when no fraction and no exponent follows them\<close>
  "parseFloat s =
     (let ds = takeWhile isDigit s; rest = dropWhile isDigit s
      in if ds = [] then ParseFloat s
         else case rest of
             [] \<Rightarrow> Num (roundDouble (decimalValue ds))
           | c # _ \<Rightarrow>
               if c = Chars_Period \<or> c = Chars_LowerE \<or> c = 69 then ParseFloat s
               else Num (roundDouble (decimalValue ds)))"

subsection \<open>Parser state, tokens and errors\<close>

datatype Token = NumericLiteral | BigIntLiteral

datatype Errors =
    ContinuousNumericSeparator
  | MissingHexDigits
  | TrailingNumericSeparator
  | StrictOctalEscape
  | InvalidBigInt
  | MissingExponent
  | IDStartAfterNumber
  | Unexpected

record ParserState =
  source :: jsString
  index :: nat
  column :: nat
  nextCP :: codepoint
  end' :: nat
  tokenIndex :: nat
  tokenValue :: any
  tokenRaw :: jsString
  flags :: "Flags set"

definition nextCP' :: "ParserState \<Rightarrow> codepoint \<times> ParserState" where
  \<comment> \<open>Modelled from the spec: the function \<^verbatim>\<open>nextCP\<close> is not in numeric.ts. It advances the
      cursor by one code unit and returns the code point now under it, which it also stores in
      the field \<^verbatim>\<open>nextCP\<close>.\<close>
  "nextCP' parser =
     (let c = charCodeAt (source parser) (index parser + 1)
      in (c, parser\<lparr>index := index parser + 1, column := column parser + 1, nextCP := c\<rparr>))"

definition create :: "jsString \<Rightarrow> ParserState" where
  \<comment> \<open>Modelled from the spec: the creation of the parser state is not in numeric.ts. The state
      is created once for each parse (3, lifecycle), with the cursor on the first code unit.\<close>
  "create src =
     \<lparr>source = src, index = 0, column = 0, nextCP = charCodeAt src 0, end' = length src,
      tokenIndex = 0, tokenValue = Undefined, tokenRaw = [], flags = {}\<rparr>"

subsection \<open>scanDecimalDigitsOrSeparator\<close>

text \<open>
  The loops stop at the end of the source, where the code point is \<^verbatim>\<open>NaN\<close>. The
  measure of the loops counts the code units left while the current one keeps the loop going.
\<close>

definition unitsLeft :: "ParserState \<Rightarrow> bool \<Rightarrow> nat" where
  "unitsLeft parser continues = (if continues then Suc (length (source parser) - index parser) else 0)"

lemma unitsLeft_nextCP':
  assumes "(char', parser') = nextCP' parser" and "continues \<Longrightarrow> CharTypes char' \<noteq> {}"
  shows "unitsLeft parser' continues < unitsLeft parser True"
proof (cases "index parser + 1 < length (source parser)")
  case True
  with assms(1) show ?thesis
    by (auto simp: nextCP'_def unitsLeft_def Let_def)
next
  case False
  with assms(1) have "char' = None"
    by (auto simp: nextCP'_def Let_def charCodeAt_def)
  with assms(2) have "\<not> continues"
    by (auto simp: CharTypes_def)
  then show ?thesis
    by (simp add: unitsLeft_def)
qed

function decimalDigitsLoop ::
  "ParserState \<Rightarrow> codepoint \<Rightarrow> nat \<Rightarrow> nat \<Rightarrow> jsString \<Rightarrow> Errors + (ParserState \<times> nat \<times> nat \<times> jsString)" where
  "decimalDigitsLoop parser char allowSeparator start ret =
     (if CharTypes char \<inter> {CharFlags_Decimal, CharFlags_Underscore} \<noteq> {} then
        if char = Some Chars_Underscore then
          let index0 = index parser;
              (char', parser') = nextCP' parser
          in if char' = Some Chars_Underscore then Inl ContinuousNumericSeparator
             else decimalDigitsLoop parser' char' 1
                    (index parser') (ret @ substring (source parser') start index0)
        else
          let (char', parser') = nextCP' parser
          in decimalDigitsLoop parser' char' 0 start ret
      else Inr (parser, allowSeparator, start, ret))"
  by pat_completeness auto
termination
  by (relation "measure (\<lambda>(parser, char, allowSeparator, start, ret).
        unitsLeft parser (CharTypes char \<inter> {CharFlags_Decimal, CharFlags_Underscore} \<noteq> {}))")
     (auto intro!: unitsLeft_nextCP')

declare decimalDigitsLoop.simps [simp del]

definition scanDecimalDigitsOrSeparator :: "ParserState \<Rightarrow> codepoint \<Rightarrow> Errors + (jsString \<times> ParserState)" where
  "scanDecimalDigitsOrSeparator parser char =
     (case decimalDigitsLoop parser char 0 (index parser) [] of
        Inl e \<Rightarrow> Inl e
      | Inr (parser', allowSeparator, start, ret) \<Rightarrow>
          if allowSeparator \<noteq> 0 then Inl TrailingNumericSeparator
          else Inr (ret @ substring (source parser') start (index parser'), parser'))"

subsection \<open>The loops of scanNumber\<close>

text \<open>
  The loops over hex, octal and binary digits (lines 38 to 49, 58 to 71 and 78 to 91) are the
  same loop up to the digit class, the radix and the value of a digit.
\<close>

function radixLoop ::
  "CharFlags \<Rightarrow> nat \<Rightarrow> (codepoint \<Rightarrow> nat) \<Rightarrow> ParserState \<Rightarrow> codepoint \<Rightarrow> number \<Rightarrow> nat \<Rightarrow> nat \<Rightarrow>
     Errors + (ParserState \<times> codepoint \<times> number \<times> nat \<times> nat)" where
  "radixLoop flag radix digitOf parser char value digits allowSeparator =
     (if CharTypes char \<inter> {flag, CharFlags_Underscore} \<noteq> {} then
        if char = Some Chars_Underscore then
          if allowSeparator = 0 then Inl ContinuousNumericSeparator
          else
            let (char', parser') = nextCP' parser
            in radixLoop flag radix digitOf parser' char' value digits 0
        else
          let value' = jsAdd (jsMul value radix) (digitOf char);
              (char', parser') = nextCP' parser
          in radixLoop flag radix digitOf parser' char' value' (digits + 1) 1
      else Inr (parser, char, value, digits, allowSeparator))"
  by pat_completeness auto
termination
  by (relation "measure (\<lambda>(flag, radix, digitOf, parser, char, value, digits, allowSeparator).
        unitsLeft parser (CharTypes char \<inter> {flag, CharFlags_Underscore} \<noteq> {}))")
     (auto intro!: unitsLeft_nextCP')

declare radixLoop.simps [simp del]

text \<open>Lines 99 to 107: the digits of a legacy octal, up to the first 8 or 9.\<close>

function implicitOctalLoop ::
  "ParserState \<Rightarrow> codepoint \<Rightarrow> number \<Rightarrow> NumberKind set \<Rightarrow> nat \<Rightarrow>
     ParserState \<times> codepoint \<times> number \<times> NumberKind set \<times> nat" where
  "implicitOctalLoop parser char value kind atStart =
     (if CharFlags_Decimal \<in> CharTypes char then
        if CharFlags_ImplicitOctalDigits \<in> CharTypes char
        then (parser, char, value, {NumberKind_DecimalWithLeadingZero}, 0)
        else
          let value' = jsAdd (jsMul value 8) (minusZero char);
              (char', parser') = nextCP' parser
          in implicitOctalLoop parser' char' value' kind atStart
      else (parser, char, value, kind, atStart))"
  by pat_completeness auto
termination
  by (relation "measure (\<lambda>(parser, char, value, kind, atStart).
        unitsLeft parser (CharFlags_Decimal \<in> CharTypes char))")
     (auto intro!: unitsLeft_nextCP')

declare implicitOctalLoop.simps [simp del]

text \<open>Lines 120 to 131: at most ten decimal digits, accumulated as a number.\<close>

function decimalFastLoop ::
  "ParserState \<Rightarrow> codepoint \<Rightarrow> number \<Rightarrow> int \<Rightarrow> nat \<Rightarrow>
     Errors + (ParserState \<times> codepoint \<times> number \<times> int \<times> nat)" where
  "decimalFastLoop parser char value digit allowSeparator =
     (if 0 \<le> digit \<and> CharTypes char \<inter> {CharFlags_Decimal, CharFlags_Underscore} \<noteq> {} then
        if char = Some Chars_Underscore then
          let (char', parser') = nextCP' parser
          in if char' = Some Chars_Underscore then Inl ContinuousNumericSeparator
             else decimalFastLoop parser' char' value digit 1
        else
          let value' = jsAdd (jsMul value 10) (minusZero char);
              (char', parser') = nextCP' parser
          in decimalFastLoop parser' char' value' (digit - 1) 0
      else Inr (parser, char, value, digit, allowSeparator))"
  by pat_completeness auto
termination
  by (relation "measure (\<lambda>(parser, char, value, digit, allowSeparator).
        unitsLeft parser (0 \<le> digit \<and> CharTypes char \<inter> {CharFlags_Decimal, CharFlags_Underscore} \<noteq> {}))")
     (auto intro!: unitsLeft_nextCP')

declare decimalFastLoop.simps [simp del]

subsection \<open>scanNumber\<close>

text \<open>
  The body of \<^verbatim>\<open>scanNumber\<close> is embedded in three parts, in the order of the source:
  the literal that starts with a zero (lines 31 to 115), the decimal digits with the
  fractional part (lines 118 to 155), and the suffix, the check of the following character
  and the token (lines 157 to 205); \<open>scanNumberTail\<close> is the second and the third part. The locals of the function are arguments and results of
  the parts; \<^verbatim>\<open>allowSeparator\<close>, \<^verbatim>\<open>atStart\<close> and \<^verbatim>\<open>isBigInt\<close> are 0 or 1
  as in the source.
\<close>

definition scanNumberZero ::
  "ParserState \<Rightarrow> Context set \<Rightarrow> NumberKind set \<Rightarrow> number \<Rightarrow> nat \<Rightarrow> nat \<Rightarrow> nat \<Rightarrow>
     Errors + (ParserState \<times> codepoint \<times> NumberKind set \<times> number \<times> nat \<times> nat)" where
  "scanNumberZero parser context kind value atStart digits allowSeparator =
     (let (char, parser) = nextCP' parser in
      if or32 char = Chars_LowerX then
        let (char, parser) = nextCP' parser in
        (case radixLoop CharFlags_Hex 16 toHex parser char value digits allowSeparator of
           Inl e \<Rightarrow> Inl e
         | Inr (parser, char, value, digits, allowSeparator) \<Rightarrow>
             if digits < 1 \<or> allowSeparator = 0
             then Inl (if digits < 1 then MissingHexDigits else TrailingNumericSeparator)
             else Inr (parser, char, {NumberKind_Hex}, value, atStart, allowSeparator))
      else if or32 char = Chars_LowerO then
        let (char, parser) = nextCP' parser in
        (case radixLoop CharFlags_Octal 8 minusZero parser char value digits allowSeparator of
           Inl e \<Rightarrow> Inl e
         | Inr (parser, char, value, digits, allowSeparator) \<Rightarrow>
             if digits < 1 \<or> allowSeparator = 0
             then Inl (if digits < 1 then MissingHexDigits else TrailingNumericSeparator)
             else Inr (parser, char, {NumberKind_Octal}, value, atStart, allowSeparator))
      else if or32 char = Chars_LowerB then
        let (char, parser) = nextCP' parser in
        (case radixLoop CharFlags_Binary 2 minusZero parser char value digits allowSeparator of
           Inl e \<Rightarrow> Inl e
         | Inr (parser, char, value, digits, allowSeparator) \<Rightarrow>
             if digits < 1 \<or> allowSeparator = 0
             then Inl (if digits < 1 then MissingHexDigits else TrailingNumericSeparator)
             else Inr (parser, char, {NumberKind_Binary}, value, atStart, allowSeparator))
      else if CharFlags_Octal \<in> CharTypes char then
        if Context_Strict \<in> context then Inl StrictOctalEscape
        else
          let (parser, char, value, kind, atStart) =
                implicitOctalLoop parser char value {NumberKind_ImplicitOctal} atStart
          in Inr (parser, char, kind, value, atStart, allowSeparator)
      else if CharFlags_ImplicitOctalDigits \<in> CharTypes char then
        if Context_Strict \<in> context then Inl StrictOctalEscape
        else Inr (parser\<lparr>flags := {Flags_Octals}\<rparr>, char, {NumberKind_DecimalWithLeadingZero},
                  value, atStart, allowSeparator)
      else if char = Some Chars_Underscore then Inl Unexpected
      else Inr (parser, char, kind, value, atStart, allowSeparator))"

text \<open>
  The decimal part either returns the token at once (line 140) or goes on to the suffix.
\<close>

datatype 'a flow = Return "Token \<times> ParserState" | Continue 'a

definition scanNumberFast ::
  "(nat \<Rightarrow> bool) \<Rightarrow> ParserState \<Rightarrow> Context set \<Rightarrow> codepoint \<Rightarrow> number \<Rightarrow> int \<Rightarrow> nat \<Rightarrow>
     Errors + (ParserState \<times> codepoint \<times> number) flow" where
  \<comment> \<open>lines 120 to 141, the body of \<^verbatim>\<open>if (atStart)\<close>\<close>
  "scanNumberFast unicodeLookup parser context char value digit allowSeparator =
     (case decimalFastLoop parser char value digit allowSeparator of
        Inl e \<Rightarrow> Inl e
      | Inr (parser, char, value, digit, allowSeparator) \<Rightarrow>
          if allowSeparator \<noteq> 0 then Inl TrailingNumericSeparator
          else if 0 \<le> digit \<and> \<not> isIdentifierStart unicodeLookup char \<and> char \<noteq> Some Chars_Period then
            Inr (Return (NumericLiteral,
              (if Context_OptionsRaw \<in> context
               then parser\<lparr>tokenValue := Num value,
                      tokenRaw := slice (source parser) (tokenIndex parser) (index parser)\<rparr>
               else parser\<lparr>tokenValue := Num value\<rparr>)))
          else Inr (Continue (parser, char, value)))"

definition scanNumberFraction ::
  "ParserState \<Rightarrow> NumberKind set \<Rightarrow> number \<Rightarrow> codepoint \<Rightarrow>
     Errors + (ParserState \<times> NumberKind set \<times> any \<times> codepoint)" where
  \<comment> \<open>lines 144 to 154\<close>
  "scanNumberFraction parser kind value char =
     (case scanDecimalDigitsOrSeparator parser char of
        Inl e \<Rightarrow> Inl e
      | Inr (s, parser) \<Rightarrow>
          let value = concatAny (Num value) s;
              char = nextCP parser
          in if char = Some Chars_Period then
               let (c, parser) = nextCP' parser
               in if c = Some Chars_Underscore then Inl Unexpected
                  else
                    (case scanDecimalDigitsOrSeparator parser (nextCP parser) of
                       Inl e \<Rightarrow> Inl e
                     | Inr (s, parser) \<Rightarrow>
                         Inr (parser, {NumberKind_Float}, concatAny value (Chars_Period # s),
                              nextCP parser))
             else Inr (parser, kind, value, char))"

definition scanNumberDecimal ::
  "(nat \<Rightarrow> bool) \<Rightarrow> ParserState \<Rightarrow> Context set \<Rightarrow> NumberKind set \<Rightarrow> nat \<Rightarrow> number \<Rightarrow> codepoint \<Rightarrow>
     int \<Rightarrow> nat \<Rightarrow> Errors + (ParserState \<times> NumberKind set \<times> any \<times> codepoint) flow" where
  \<comment> \<open>lines 118 to 155\<close>
  "scanNumberDecimal unicodeLookup parser context kind atStart value char digit allowSeparator =
     (if kind \<inter> DecimalNumberKind \<noteq> {} then
        (case (if atStart \<noteq> 0
               then scanNumberFast unicodeLookup parser context char value digit allowSeparator
               else Inr (Continue (parser, char, value))) of
           Inl e \<Rightarrow> Inl e
         | Inr (Return r) \<Rightarrow> Inr (Return r)
         | Inr (Continue (parser, char, value)) \<Rightarrow>
             (case scanNumberFraction parser kind value char of
                Inl e \<Rightarrow> Inl e
              | Inr r \<Rightarrow> Inr (Continue r)))
      else Inr (Continue (parser, kind, Num value, char)))"

definition scanNumberExponent ::
  "ParserState \<Rightarrow> NumberKind set \<Rightarrow> any \<Rightarrow> codepoint \<Rightarrow>
     Errors + (nat \<times> ParserState \<times> any \<times> codepoint)" where
  \<comment> \<open>lines 157 to 182; the first component of the result is \<^verbatim>\<open>isBigInt\<close>\<close>
  "scanNumberExponent parser kind value char =
     (let end = index parser in
      if char = Some Chars_LowerN \<and> kind \<inter> ValidBigIntKind \<noteq> {} then
        let (char, parser) = nextCP' parser
        in Inr (1, parser, value, char)
      else if or32 char = Chars_LowerE then
        let (char, parser) = nextCP' parser;
            (char, parser) = (if CharFlags_Exponent \<in> CharTypes char then nextCP' parser
                              else (char, parser));
            index0 = index parser
        in if CharFlags_Decimal \<in> CharTypes char then
             (case scanDecimalDigitsOrSeparator parser char of
                Inl e \<Rightarrow> Inl e
              | Inr (s, parser) \<Rightarrow>
                  Inr (0, parser, concatAny value (substring (source parser) end index0 @ s),
                       nextCP parser))
           else Inl MissingExponent
      else Inr (0, parser, value, char))"

definition scanNumberToken ::
  "(nat \<Rightarrow> bool) \<Rightarrow> ParserState \<Rightarrow> Context set \<Rightarrow> NumberKind set \<Rightarrow> any \<Rightarrow> codepoint \<Rightarrow> nat \<Rightarrow>
     Errors + Token \<times> ParserState" where
  \<comment> \<open>lines 184 to 205\<close>
  "scanNumberToken unicodeLookup parser context kind value char isBigInt =
     (if (index parser < end' parser \<and> CharFlags_Decimal \<in> CharTypes char)
         \<or> isIdentifierStart unicodeLookup char
      then Inl IDStartAfterNumber
      else if isBigInt \<noteq> 0 then
        Inr (BigIntLiteral,
             parser\<lparr>tokenRaw := slice (source parser) (tokenIndex parser) (index parser),
                    tokenValue := parseInt10 value\<rparr>)
      else
        let parser = parser\<lparr>tokenValue :=
              (if kind \<inter> {NumberKind_ImplicitOctal, NumberKind_Binary, NumberKind_Hex, NumberKind_Octal} \<noteq> {}
               then value
               else if NumberKind_DecimalWithLeadingZero \<in> kind
               then parseFloat (substring (source parser) (tokenIndex parser) (index parser))
               else toNumber value)\<rparr>
        in Inr (NumericLiteral,
                (if Context_OptionsRaw \<in> context
                 then parser\<lparr>tokenRaw := slice (source parser) (tokenIndex parser) (index parser)\<rparr>
                 else parser)))"

definition scanNumberSuffix ::
  "(nat \<Rightarrow> bool) \<Rightarrow> ParserState \<Rightarrow> Context set \<Rightarrow> NumberKind set \<Rightarrow> any \<Rightarrow> codepoint \<Rightarrow>
     Errors + Token \<times> ParserState" where
  \<comment> \<open>lines 157 to 205\<close>
  "scanNumberSuffix unicodeLookup parser context kind value char =
     (case scanNumberExponent parser kind value char of
        Inl e \<Rightarrow> Inl e
      | Inr (isBigInt, parser, value, char) \<Rightarrow>
          scanNumberToken unicodeLookup parser context kind value char isBigInt)"

definition scanNumberTail ::
  "(nat \<Rightarrow> bool) \<Rightarrow> ParserState \<Rightarrow> Context set \<Rightarrow> NumberKind set \<Rightarrow> nat \<Rightarrow> number \<Rightarrow> codepoint \<Rightarrow>
     int \<Rightarrow> nat \<Rightarrow> Errors + Token \<times> ParserState" where
  \<comment> \<open>lines 118 to 205\<close>
  "scanNumberTail unicodeLookup parser context kind atStart value char digit allowSeparator =
     (case scanNumberDecimal unicodeLookup parser context kind atStart value char digit
             allowSeparator of
        Inl e \<Rightarrow> Inl e
      | Inr (Return r) \<Rightarrow> Inr r
      | Inr (Continue (parser, kind, value, char)) \<Rightarrow>
          scanNumberSuffix unicodeLookup parser context kind value char)"

definition scanNumber ::
  "(nat \<Rightarrow> bool) \<Rightarrow> ParserState \<Rightarrow> Context set \<Rightarrow> NumberKind set \<Rightarrow> Errors + Token \<times> ParserState" where
  "scanNumber unicodeLookup parser context kind =
     (let char = nextCP parser;
          value = Fin 0;
          digit = 9;
          atStart = (if NumberKind_Float \<in> kind then 1 else 0);
          digits = 0;
          allowSeparator = 0
      in
      if NumberKind_Float \<in> kind then
        (case scanDecimalDigitsOrSeparator parser char of
           Inl e \<Rightarrow> Inl e
         | Inr (s, parser) \<Rightarrow>
             let value = Str (Chars_Period # s);
                 char = nextCP parser
             in if char = Some Chars_LowerN then Inl InvalidBigInt
                else scanNumberSuffix unicodeLookup parser context kind value char)
      else
        (case (if char = Some Chars_Zero
               then scanNumberZero parser context kind value atStart digits allowSeparator
               else Inr (parser, char, kind, value, atStart, allowSeparator)) of
           Inl e \<Rightarrow> Inl e
         | Inr (parser, char, kind, value, atStart, allowSeparator) \<Rightarrow>
             scanNumberTail unicodeLookup parser context kind atStart value char digit
               allowSeparator))"

text \<open>
  What a caller observes of a scan: the error, or the token with the value stored for it.
\<close>

definition outcome :: "Errors + Token \<times> ParserState \<Rightarrow> Errors + Token \<times> any" where
  "outcome r = (case r of Inl e \<Rightarrow> Inl e | Inr (token, parser) \<Rightarrow> Inr (token, tokenValue parser))"

section \<open>The input of a scan\<close>

text \<open>
  The statements below describe a scan by the text that lies ahead of the cursor.
  \<open>atInput parser xs\<close>: the source from the cursor on is \<open>xs\<close>, and the field
  \<^verbatim>\<open>nextCP\<close> holds its first code unit, as it does whenever the lexer calls
  \<^verbatim>\<open>scanNumber\<close>. \<open>advance parser k\<close> is the parser after \<open>k\<close> calls of
  \<^verbatim>\<open>nextCP\<close>.
\<close>

definition headCP :: "jsString \<Rightarrow> codepoint" where
  "headCP xs = (case xs of [] \<Rightarrow> None | c # _ \<Rightarrow> Some c)"

definition atInput :: "ParserState \<Rightarrow> jsString \<Rightarrow> bool" where
  "atInput parser xs = (drop (index parser) (source parser) = xs \<and> nextCP parser = headCP xs)"

definition advance :: "ParserState \<Rightarrow> nat \<Rightarrow> ParserState" where
  "advance parser k =
     parser\<lparr>index := index parser + k, column := column parser + k,
            nextCP := charCodeAt (source parser) (index parser + k)\<rparr>"

definition noUnicodeStarts :: "nat \<Rightarrow> bool" where
  \<comment> \<open>a Unicode table without identifier starts, for sources in ASCII\<close>
  "noUnicodeStarts c = False"

text \<open>
  A run is a sequence of digits and separators. Its separators are misplaced when one
  leads the run, one ends it, or two are adjacent.
\<close>

fun doubledSeparator :: "jsString \<Rightarrow> bool" where
  "doubledSeparator (a # b # cs) =
     ((a = Chars_Underscore \<and> b = Chars_Underscore) \<or> doubledSeparator (b # cs))"
| "doubledSeparator cs = False"

definition leadingSeparator :: "jsString \<Rightarrow> bool" where
  "leadingSeparator r = (headCP r = Some Chars_Underscore)"

definition trailingSeparator :: "jsString \<Rightarrow> bool" where
  "trailingSeparator r = (headCP (rev r) = Some Chars_Underscore)"

definition digitsOf :: "jsString \<Rightarrow> jsString" where
  "digitsOf r = filter (\<lambda>c. c \<noteq> Chars_Underscore) r"

text \<open>The mathematical value of a sequence of digits in a radix.\<close>

definition digitValue :: "nat \<Rightarrow> nat" where
  "digitValue c = (if 97 \<le> c then c - 87 else if 65 \<le> c then c - 55 else c - 48)"

fun radixValue :: "nat \<Rightarrow> jsString \<Rightarrow> nat" where
  "radixValue radix [] = 0"
| "radixValue radix (c # cs) = digitValue c * radix ^ length cs + radixValue radix cs"

text \<open>The accumulator of a digit loop after the digits \<open>ds\<close>, with the rounding of each step.\<close>

definition accumulate :: "nat \<Rightarrow> (codepoint \<Rightarrow> nat) \<Rightarrow> number \<Rightarrow> jsString \<Rightarrow> number" where
  "accumulate radix digitOf value ds =
     foldl (\<lambda>v c. jsAdd (jsMul v radix) (digitOf (Some c))) value ds"

text \<open>
  A radix prefix is a zero and one of the letters x, o and b, in either case; it selects
  the class of the digits, the radix and the kind of the literal. A numeral ends where the
  text that follows starts with neither an identifier start nor a decimal digit.
\<close>

definition radixOfPrefix :: "nat \<Rightarrow> (CharFlags \<times> nat \<times> NumberKind) option" where
  "radixOfPrefix x =
     (if x = Chars_LowerX \<or> x = 88 then Some (CharFlags_Hex, 16, NumberKind_Hex)
      else if x = Chars_LowerO \<or> x = 79 then Some (CharFlags_Octal, 8, NumberKind_Octal)
      else if x = Chars_LowerB \<or> x = 66 then Some (CharFlags_Binary, 2, NumberKind_Binary)
      else None)"

definition endsNumeral :: "(nat \<Rightarrow> bool) \<Rightarrow> jsString \<Rightarrow> bool" where
  "endsNumeral unicodeLookup rest =
     (\<not> isIdentifierStart unicodeLookup (headCP rest) \<and> CharFlags_Decimal \<notin> CharTypes (headCP rest))"

text \<open>
  The token and the raw text stored for it; the fields of the parser that give the raw
  text of a token and that no loop of the scanner writes.
\<close>

definition rawOutcome :: "Errors + Token \<times> ParserState \<Rightarrow> Errors + Token \<times> jsString" where
  "rawOutcome r = (case r of Inl e \<Rightarrow> Inl e | Inr (token, parser) \<Rightarrow> Inr (token, tokenRaw parser))"

definition sameToken :: "ParserState \<Rightarrow> ParserState \<Rightarrow> bool" where
  "sameToken p p' = (source p' = source p \<and> tokenIndex p' = tokenIndex p \<and> tokenRaw p' = tokenRaw p)"

definition flagsOutcome :: "Errors + Token \<times> ParserState \<Rightarrow> Errors + Token \<times> any \<times> Flags set" where
  "flagsOutcome r =
     (case r of Inl e \<Rightarrow> Inl e | Inr (token, parser) \<Rightarrow> Inr (token, tokenValue parser, flags parser))"

text \<open>
  The shapes of a decimal literal: the digits and separators at the start of a text, the
  integer part, the fractional part with its period, the digits that follow the period when
  the scan is entered with \<^verbatim>\<open>NumberKind.Float\<close>, and the text after an optional sign.
\<close>

definition isRunChar :: "nat \<Rightarrow> bool" where
  "isRunChar c = (isDigit c \<or> c = Chars_Underscore)"

definition digitRun :: "jsString \<Rightarrow> jsString" where
  "digitRun xs = takeWhile isRunChar xs"

definition afterRun :: "jsString \<Rightarrow> jsString" where
  "afterRun xs = dropWhile isRunChar xs"

definition misplacedSeparator :: "jsString \<Rightarrow> bool" where
  "misplacedSeparator r = (leadingSeparator r \<or> doubledSeparator r \<or> trailingSeparator r)"

definition afterSign :: "jsString \<Rightarrow> jsString" where
  "afterSign xs = (case xs of [] \<Rightarrow> [] | c # cs \<Rightarrow> if c = 43 \<or> c = 45 then cs else xs)"

definition decimalInteger :: "jsString \<Rightarrow> bool" where
  "decimalInteger ip =
     (case ip of
        [] \<Rightarrow> False
      | d # r \<Rightarrow>
          (d = Chars_Zero \<and> r = []) \<or>
          (49 \<le> d \<and> d \<le> 57 \<and> list_all isRunChar r \<and> \<not> doubledSeparator r \<and> \<not> trailingSeparator r))"

definition fractionPart :: "jsString \<Rightarrow> bool" where
  "fractionPart frac =
     (case frac of
        [] \<Rightarrow> True
      | c # r \<Rightarrow> c = Chars_Period \<and> list_all isRunChar r \<and> \<not> misplacedSeparator r)"

definition floatDigits :: "jsString \<Rightarrow> bool" where
  "floatDigits r =
     (case r of
        [] \<Rightarrow> False
      | d # r' \<Rightarrow> isDigit d \<and> list_all isRunChar r' \<and> \<not> doubledSeparator r' \<and> \<not> trailingSeparator r')"

definition mantissa :: "NumberKind set \<Rightarrow> jsString \<Rightarrow> bool" where
  "mantissa kind m =
     (if NumberKind_Float \<in> kind then floatDigits m
      else NumberKind_Decimal \<in> kind \<and>
           decimalInteger (takeWhile (\<lambda>c. c \<noteq> Chars_Period) m) \<and>
           fractionPart (dropWhile (\<lambda>c. c \<noteq> Chars_Period) m))"

text \<open>
  The places of a literal where a separator can be misplaced. The first argument is the
  kind that the lexer passes to the scan, the second the text from the cursor on.
\<close>

definition radixRun :: "CharFlags \<Rightarrow> jsString \<Rightarrow> jsString" where
  "radixRun flag xs = takeWhile (\<lambda>c. flag \<in> CharTypes (Some c) \<or> c = Chars_Underscore) xs"

inductive misplacedSeparatorIn :: "NumberKind set \<Rightarrow> jsString \<Rightarrow> bool" where
  radix:
    "\<lbrakk>radixOfPrefix x = Some (flag, radix, k); NumberKind_Float \<notin> kind;
      misplacedSeparator (radixRun flag xs)\<rbrakk>
     \<Longrightarrow> misplacedSeparatorIn kind (Chars_Zero # x # xs)"
| afterZero:
    "NumberKind_Float \<notin> kind \<Longrightarrow> misplacedSeparatorIn kind (Chars_Zero # Chars_Underscore # xs)"
| integer:
    "\<lbrakk>49 \<le> d; d \<le> 57; NumberKind_Decimal \<in> kind; NumberKind_Float \<notin> kind;
      misplacedSeparator (d # digitRun xs)\<rbrakk>
     \<Longrightarrow> misplacedSeparatorIn kind (d # xs)"
| fraction:
    "\<lbrakk>decimalInteger ip; NumberKind_Decimal \<in> kind; NumberKind_Float \<notin> kind;
      misplacedSeparator (digitRun xs)\<rbrakk>
     \<Longrightarrow> misplacedSeparatorIn kind (ip @ Chars_Period # xs)"
| float:
    "\<lbrakk>isDigit d; NumberKind_Float \<in> kind; misplacedSeparator (d # digitRun xs)\<rbrakk>
     \<Longrightarrow> misplacedSeparatorIn kind (d # xs)"
| exponent:
    "\<lbrakk>mantissa kind m; e = Chars_LowerE \<or> e = 69; misplacedSeparator (digitRun (afterSign xs))\<rbrakk>
     \<Longrightarrow> misplacedSeparatorIn kind (m @ e # xs)"
| zeroDecimal:
    "\<lbrakk>d = 56 \<or> d = 57; NumberKind_Float \<notin> kind; misplacedSeparator (d # digitRun xs)\<rbrakk>
     \<Longrightarrow> misplacedSeparatorIn kind (Chars_Zero # d # xs)"
| legacyOctal:
    "\<lbrakk>os \<noteq> []; list_all (\<lambda>c. 48 \<le> c \<and> c \<le> 55) os; NumberKind_Float \<notin> kind\<rbrakk>
     \<Longrightarrow> misplacedSeparatorIn kind (Chars_Zero # os @ Chars_Underscore # xs)"

subsection \<open>Function declarations in statement position\<close>

text \<open>
  The parser is not among the sources; its tests are
  (\<^verbatim>\<open>test/parser/declarations/functions.ts\<close>). The definitions of this subsection follow
  the specification (4.3, 4.4, 6) for the fragment of the grammar that the placement rule of
  function declarations needs: blocks, \<^verbatim>\<open>if\<close> statements, labelled statements, expression
  statements of one name or literal, and function declarations without parameters.
\<close>

datatype ParserToken =
    IfKeyword | ElseKeyword | FunctionKeyword | TrueKeyword | FalseKeyword
  | LeftParen | RightParen | LeftBrace | RightBrace | Colon | Semicolon
  | Identifier jsString

datatype ParseErrors = UnexpectedCharacter | UnexpectedToken | DisallowedFunctionDeclaration | NestingTooDeep

datatype Node =
    Program "Node list"
  | IfStatement Node Node "Node option"
  | FunctionDeclaration jsString "Node list"
  | BlockStatement "Node list"
  | LabeledStatement jsString Node
  | ExpressionStatement Node
  | EmptyStatement
  | Literal bool
  | IdentifierName jsString

definition isIdentifierPart :: "nat \<Rightarrow> bool" where
  \<comment> \<open>Modelled from the spec: the identifier scanner is not under src/. The ASCII characters of
      an identifier: letters, digits, dollar and underscore (4.1, 4.3).\<close>
  "isIdentifierPart c =
     ((48 \<le> c \<and> c \<le> 57) \<or> (65 \<le> c \<and> c \<le> 90) \<or> (97 \<le> c \<and> c \<le> 122) \<or> c = 36 \<or> c = 95)"

definition keywordOrIdentifier :: "jsString \<Rightarrow> ParserToken" where
  \<comment> \<open>Modelled from the spec: the keyword table is not under src/. A scanned word is
      classified against the reserved words (4.3); the model knows the five it needs.\<close>
  "keywordOrIdentifier w =
     (if w = str ''if'' then IfKeyword
      else if w = str ''else'' then ElseKeyword
      else if w = str ''function'' then FunctionKeyword
      else if w = str ''true'' then TrueKeyword
      else if w = str ''false'' then FalseKeyword
      else Identifier w)"

definition punctuator :: "nat \<Rightarrow> ParserToken option" where
  \<comment> \<open>Modelled from the spec: the punctuator scanner is not under src/.\<close>
  "punctuator c =
     (if c = 40 then Some LeftParen else if c = 41 then Some RightParen
      else if c = 123 then Some LeftBrace else if c = 125 then Some RightBrace
      else if c = 58 then Some Colon else if c = 59 then Some Semicolon else None)"

function scanTokens :: "jsString \<Rightarrow> ParseErrors + ParserToken list" where
  \<comment> \<open>Modelled from the spec: the tokenizer of identifiers, keywords and punctuators is not
      under src/. It classifies the next lexeme into a token kind (2, 4.3); white space
      separates tokens.\<close>
  "scanTokens [] = Inr []"
| "scanTokens (c # cs) =
     (if c = 32 \<or> c = 9 \<or> c = 10 then scanTokens cs
      else case punctuator c of
          Some t \<Rightarrow> (case scanTokens cs of Inl e \<Rightarrow> Inl e | Inr ts \<Rightarrow> Inr (t # ts))
        | None \<Rightarrow>
            if isIdentifierPart c \<and> \<not> isDigit c then
              (case scanTokens (dropWhile isIdentifierPart cs) of
                 Inl e \<Rightarrow> Inl e
               | Inr ts \<Rightarrow> Inr (keywordOrIdentifier (c # takeWhile isIdentifierPart cs) # ts))
            else Inl UnexpectedCharacter)"
  by pat_completeness auto
termination
  by (relation "measure length") (auto simp: le_imp_less_Suc length_dropWhile_le)

declare scanTokens.simps [simp del]

definition parsePrimaryExpression :: "ParserToken list \<Rightarrow> ParseErrors + Node \<times> ParserToken list" where
  \<comment> \<open>Modelled from the spec: the expression grammar is not under src/. The model has the
      literals \<^verbatim>\<open>true\<close> and \<^verbatim>\<open>false\<close> and identifier references.\<close>
  "parsePrimaryExpression ts =
     (case ts of
        TrueKeyword # rest \<Rightarrow> Inr (Literal True, rest)
      | FalseKeyword # rest \<Rightarrow> Inr (Literal False, rest)
      | Identifier x # rest \<Rightarrow> Inr (IdentifierName x, rest)
      | _ \<Rightarrow> Inl UnexpectedToken)"

fun parseStatement :: "nat \<Rightarrow> Context set \<Rightarrow> ParserToken list \<Rightarrow> ParseErrors + Node \<times> ParserToken list"
  and parseStatementList :: "nat \<Rightarrow> Context set \<Rightarrow> ParserToken list \<Rightarrow> ParseErrors + Node list \<times> ParserToken list"
  and parseFunctionDeclaration :: "nat \<Rightarrow> Context set \<Rightarrow> ParserToken list \<Rightarrow> ParseErrors + Node \<times> ParserToken list"
where
  \<comment> \<open>Modelled from the spec: the grammar engine is not under src/ (only its tests are). One
      procedure for each production, the context passed down as a value, abort on the first
      violated constraint (4.4). \<open>parseStatement\<close> parses a statement in a single-statement
      context, where a function declaration is a hard error in the default context and is
      permitted in sloppy mode when the web-compatibility option is enabled;
      \<open>parseStatementList\<close> parses the items of a body, where a function declaration is always
      permitted. The first argument bounds the depth of the recursion.\<close>
  "parseStatement 0 context ts = Inl NestingTooDeep"
| "parseStatement (Suc n) context ts =
     (case ts of
        LeftBrace # rest \<Rightarrow>
          (case parseStatementList n context rest of
             Inl e \<Rightarrow> Inl e
           | Inr (body, rest) \<Rightarrow>
               (case rest of
                  RightBrace # rest \<Rightarrow> Inr (BlockStatement body, rest)
                | _ \<Rightarrow> Inl UnexpectedToken))
      | IfKeyword # LeftParen # rest \<Rightarrow>
          (case parsePrimaryExpression rest of
             Inl e \<Rightarrow> Inl e
           | Inr (test, rest) \<Rightarrow>
               (case rest of
                  RightParen # rest \<Rightarrow>
                    (case parseStatement n context rest of
                       Inl e \<Rightarrow> Inl e
                     | Inr (consequent, rest) \<Rightarrow>
                         (case rest of
                            ElseKeyword # rest \<Rightarrow>
                              (case parseStatement n context rest of
                                 Inl e \<Rightarrow> Inl e
                               | Inr (alternate, rest) \<Rightarrow>
                                   Inr (IfStatement test consequent (Some alternate), rest))
                          | _ \<Rightarrow> Inr (IfStatement test consequent None, rest)))
                | _ \<Rightarrow> Inl UnexpectedToken))
      | FunctionKeyword # rest \<Rightarrow>
          if Context_OptionsWebCompat \<in> context \<and> Context_Strict \<notin> context
          then parseFunctionDeclaration n context ts
          else Inl DisallowedFunctionDeclaration
      | Semicolon # rest \<Rightarrow> Inr (EmptyStatement, rest)
      | Identifier l # Colon # rest \<Rightarrow>
          (case parseStatement n context rest of
             Inl e \<Rightarrow> Inl e
           | Inr (body, rest) \<Rightarrow> Inr (LabeledStatement l body, rest))
      | _ \<Rightarrow>
          (case parsePrimaryExpression ts of
             Inl e \<Rightarrow> Inl e
           | Inr (expression, rest) \<Rightarrow>
               (case rest of
                  Semicolon # rest \<Rightarrow> Inr (ExpressionStatement expression, rest)
                | _ \<Rightarrow> Inr (ExpressionStatement expression, rest))))"
| "parseStatementList 0 context ts = Inl NestingTooDeep"
| "parseStatementList (Suc n) context ts =
     (case ts of
        [] \<Rightarrow> Inr ([], ts)
      | RightBrace # rest \<Rightarrow> Inr ([], ts)
      | t # rest \<Rightarrow>
          (case (if t = FunctionKeyword then parseFunctionDeclaration n context ts
                 else parseStatement n context ts) of
             Inl e \<Rightarrow> Inl e
           | Inr (item, rest) \<Rightarrow>
               (case parseStatementList n context rest of
                  Inl e \<Rightarrow> Inl e
                | Inr (items, rest) \<Rightarrow> Inr (item # items, rest))))"
| "parseFunctionDeclaration 0 context ts = Inl NestingTooDeep"
| "parseFunctionDeclaration (Suc n) context ts =
     (case ts of
        FunctionKeyword # Identifier name # LeftParen # RightParen # LeftBrace # rest \<Rightarrow>
          (case parseStatementList n context rest of
             Inl e \<Rightarrow> Inl e
           | Inr (body, rest) \<Rightarrow>
               (case rest of
                  RightBrace # rest \<Rightarrow> Inr (FunctionDeclaration name body, rest)
                | _ \<Rightarrow> Inl UnexpectedToken))
      | _ \<Rightarrow> Inl UnexpectedToken)"

definition parseSource :: "jsString \<Rightarrow> Context set \<Rightarrow> ParseErrors + Node" where
  \<comment> \<open>Modelled from the spec: \<^verbatim>\<open>parseSource\<close> is not under src/ (only its tests are). A
      source and a configuration give a \<^verbatim>\<open>Program\<close> node or one error (6). The depth
      bound is the number of tokens, which no parse of them exceeds.\<close>
  "parseSource src context =
     (case scanTokens src of
        Inl e \<Rightarrow> Inl e
      | Inr ts \<Rightarrow>
          (case parseStatementList (Suc (length ts)) context ts of
             Inl e \<Rightarrow> Inl e
           | Inr (body, rest) \<Rightarrow> if rest = [] then Inr (Program body) else Inl UnexpectedToken))"

fun hasFunctionDeclaration :: "Node \<Rightarrow> bool" where
  "hasFunctionDeclaration (Program body) = list_ex hasFunctionDeclaration body"
| "hasFunctionDeclaration (IfStatement test consequent alternate) =
     (hasFunctionDeclaration consequent \<or>
      (case alternate of None \<Rightarrow> False | Some a \<Rightarrow> hasFunctionDeclaration a))"
| "hasFunctionDeclaration (FunctionDeclaration name body) = True"
| "hasFunctionDeclaration (BlockStatement body) = list_ex hasFunctionDeclaration body"
| "hasFunctionDeclaration (LabeledStatement l body) = hasFunctionDeclaration body"
| "hasFunctionDeclaration n = False"

section \<open>Evaluation on concrete sources\<close>

lemmas scanNumber_loops =
  radixLoop.simps implicitOctalLoop.simps decimalFastLoop.simps decimalDigitsLoop.simps

lemmas scanNumber_defs =
  scanNumber_def scanNumberZero_def scanNumberTail_def scanNumberDecimal_def scanNumberFast_def
  scanNumberFraction_def scanNumberSuffix_def scanNumberExponent_def scanNumberToken_def
  scanDecimalDigitsOrSeparator_def nextCP'_def create_def str_def charCodeAt_def CharTypes_def
  isIdentifierStart_def or32_def toHex_def minusZero_def DecimalNumberKind_def
  ValidBigIntKind_def slice_def substring_def outcome_def Let_def

lemmas number_defs = roundDouble_def numberToString.simps isDigit_def parseFloat_def

section \<open>Properties of the helpers and of the loops\<close>

lemma CharTypes_None [simp]: "CharTypes None = {}"
  by (simp add: CharTypes_def)

lemma Decimal_iff: "CharFlags_Decimal \<in> CharTypes (Some c) \<longleftrightarrow> 48 \<le> c \<and> c \<le> 57"
  by (simp add: CharTypes_def)
lemma Octal_iff: "CharFlags_Octal \<in> CharTypes (Some c) \<longleftrightarrow> 48 \<le> c \<and> c \<le> 55"
  by (simp add: CharTypes_def)
lemma Binary_iff: "CharFlags_Binary \<in> CharTypes (Some c) \<longleftrightarrow> c = 48 \<or> c = 49"
  by (simp add: CharTypes_def)
lemma Hex_iff: "CharFlags_Hex \<in> CharTypes (Some c) \<longleftrightarrow> (48 \<le> c \<and> c \<le> 57) \<or> (65 \<le> c \<and> c \<le> 70) \<or> (97 \<le> c \<and> c \<le> 102)"
  by (simp add: CharTypes_def)
lemma ImplicitOctalDigits_iff: "CharFlags_ImplicitOctalDigits \<in> CharTypes (Some c) \<longleftrightarrow> c = 56 \<or> c = 57"
  by (simp add: CharTypes_def)
lemma Underscore_iff: "CharFlags_Underscore \<in> CharTypes (Some c) \<longleftrightarrow> c = 95"
  by (simp add: CharTypes_def)
lemma Exponent_iff: "CharFlags_Exponent \<in> CharTypes (Some c) \<longleftrightarrow> c = 43 \<or> c = 45"
  by (simp add: CharTypes_def)
lemma IdentifierStart_iff: "CharFlags_IdentifierStart \<in> CharTypes (Some c) \<longleftrightarrow>
   (65 \<le> c \<and> c \<le> 90) \<or> (97 \<le> c \<and> c \<le> 122) \<or> c = 36 \<or> c = 92 \<or> c = 95"
  by (simp add: CharTypes_def)

lemma or_32_nat: "or (c::nat) 32 = (if bit c 5 then c else c + 32)"
proof -
  have "or c 32 = set_bit 5 c"
    by (simp add: set_bit_eq_or)
  then show ?thesis
    by (simp add: set_bit_eq)
qed

lemma or32_cases: "or32 (Some c) = k \<Longrightarrow> c = k \<or> c + 32 = k"
  by (simp add: or32_def or_32_nat split: if_splits)

lemma or32_LowerE: "or32 char = Chars_LowerE \<longleftrightarrow> char = Some Chars_LowerE \<or> char = Some 69"
proof (cases char)
  case None
  then show ?thesis by (simp add: or32_def)
next
  case (Some c)
  show ?thesis
  proof
    assume "or32 char = Chars_LowerE"
    with Some or32_cases [of c Chars_LowerE] show "char = Some Chars_LowerE \<or> char = Some 69"
      by auto
  next
    assume "char = Some Chars_LowerE \<or> char = Some 69"
    then show "or32 char = Chars_LowerE"
      by (auto simp: or32_def)
  qed
qed

lemma or32_LowerX: "or32 char = Chars_LowerX \<longleftrightarrow> char = Some Chars_LowerX \<or> char = Some 88"
proof (cases char)
  case None
  then show ?thesis by (simp add: or32_def)
next
  case (Some c)
  show ?thesis
  proof
    assume "or32 char = Chars_LowerX"
    with Some or32_cases [of c Chars_LowerX] show "char = Some Chars_LowerX \<or> char = Some 88"
      by auto
  next
    assume "char = Some Chars_LowerX \<or> char = Some 88"
    then show "or32 char = Chars_LowerX"
      by (auto simp: or32_def)
  qed
qed

lemma or32_LowerO: "or32 char = Chars_LowerO \<longleftrightarrow> char = Some Chars_LowerO \<or> char = Some 79"
proof (cases char)
  case None
  then show ?thesis by (simp add: or32_def)
next
  case (Some c)
  show ?thesis
  proof
    assume "or32 char = Chars_LowerO"
    with Some or32_cases [of c Chars_LowerO] show "char = Some Chars_LowerO \<or> char = Some 79"
      by auto
  next
    assume "char = Some Chars_LowerO \<or> char = Some 79"
    then show "or32 char = Chars_LowerO"
      by (auto simp: or32_def)
  qed
qed

lemma or32_LowerB: "or32 char = Chars_LowerB \<longleftrightarrow> char = Some Chars_LowerB \<or> char = Some 66"
proof (cases char)
  case None
  then show ?thesis by (simp add: or32_def)
next
  case (Some c)
  show ?thesis
  proof
    assume "or32 char = Chars_LowerB"
    with Some or32_cases [of c Chars_LowerB] show "char = Some Chars_LowerB \<or> char = Some 66"
      by auto
  next
    assume "char = Some Chars_LowerB \<or> char = Some 66"
    then show "or32 char = Chars_LowerB"
      by (auto simp: or32_def)
  qed
qed

lemma headCP_simps [simp]: "headCP [] = None" "headCP (c # cs) = Some c"
  by (simp_all add: headCP_def)

lemma headCP_append: "headCP (xs @ ys) = (if xs = [] then headCP ys else headCP xs)"
  by (cases xs) simp_all

lemma charCodeAt_drop: "drop i s = xs \<Longrightarrow> charCodeAt s i = headCP xs"
proof (cases xs)
  case Nil
  assume "drop i s = xs"
  with Nil show ?thesis by (simp add: charCodeAt_def)
next
  case (Cons c cs)
  assume d: "drop i s = xs"
  with Cons have lt: "i < length s" by (cases "i < length s") auto
  from hd_drop_conv_nth [OF lt] d Cons have "s ! i = c" by simp
  with lt Cons show ?thesis by (simp add: charCodeAt_def)
qed

lemma advance_fields [simp]:
  "source (advance p k) = source p"
  "index (advance p k) = index p + k"
  "column (advance p k) = column p + k"
  "nextCP (advance p k) = charCodeAt (source p) (index p + k)"
  "end' (advance p k) = end' p"
  "tokenIndex (advance p k) = tokenIndex p"
  "tokenValue (advance p k) = tokenValue p"
  "tokenRaw (advance p k) = tokenRaw p"
  "flags (advance p k) = flags p"
  by (simp_all add: advance_def)

lemma advance_advance [simp]: "advance (advance p a) b = advance p (a + b)"
  by (simp add: advance_def add.assoc)

lemma advance_0: "atInput p xs \<Longrightarrow> advance p 0 = p"
  by (simp add: advance_def atInput_def charCodeAt_drop)

lemma atInput_advance: "atInput p (xs @ ys) \<Longrightarrow> atInput (advance p (length xs)) ys"
  by (auto simp: atInput_def charCodeAt_drop add.commute drop_drop [symmetric] simp del: drop_drop)

lemma atInput_nextCP: "atInput p xs \<Longrightarrow> nextCP p = headCP xs"
  by (simp add: atInput_def)

lemma nextCP'_atInput: "atInput p (c # xs) \<Longrightarrow> nextCP' p = (headCP xs, advance p (Suc 0))"
  using atInput_advance [of p "[c]" xs]
  by (simp add: nextCP'_def Let_def advance_def atInput_def)

lemma atInput_step: "atInput p (c # xs) \<Longrightarrow> atInput (advance p (Suc 0)) xs"
  using atInput_advance [of p "[c]" xs] by simp

lemma accumulate_simps [simp]:
  "accumulate radix digitOf value [] = value"
  "accumulate radix digitOf value (c # cs) = accumulate radix digitOf (jsAdd (jsMul value radix) (digitOf (Some c))) cs"
  by (simp_all add: accumulate_def)

lemma trailingSeparator_simps [simp]:
  "trailingSeparator [] = False"
  "trailingSeparator [c] = (c = Chars_Underscore)"
  "cs \<noteq> [] \<Longrightarrow> trailingSeparator (c # cs) = trailingSeparator cs"
  by (auto simp: trailingSeparator_def headCP_append)

lemma leadingSeparator_simps [simp]:
  "leadingSeparator [] = False"
  "leadingSeparator (c # cs) = (c = Chars_Underscore)"
  by (auto simp: leadingSeparator_def)

lemma doubledSeparator_Cons:
  "doubledSeparator (c # cs) = ((c = Chars_Underscore \<and> leadingSeparator cs) \<or> doubledSeparator cs)"
  by (cases cs) auto

lemma radixLoop_run:
  assumes "atInput p (r @ rest)"
    and "list_all (\<lambda>c. flag \<in> CharTypes (Some c) \<or> c = Chars_Underscore) r"
    and "CharTypes (headCP rest) \<inter> {flag, CharFlags_Underscore} = {}"
  shows "radixLoop flag radix digitOf p (headCP (r @ rest)) v n a =
     (if (a = 0 \<and> leadingSeparator r) \<or> doubledSeparator r then Inl ContinuousNumericSeparator
      else Inr (advance p (length r), headCP rest, accumulate radix digitOf v (digitsOf r),
                n + length (digitsOf r),
                if r = [] then a else if trailingSeparator r then 0 else 1))"
  using assms
proof (induction r arbitrary: p v n a)
  case Nil
  then show ?case
    by (subst radixLoop.simps) (simp add: advance_0 digitsOf_def)
next
  case (Cons c r)
  from Cons.prems(1) have step: "nextCP' p = (headCP (r @ rest), advance p (Suc 0))"
    and next_input: "atInput (advance p (Suc 0)) (r @ rest)"
    by (simp_all add: nextCP'_atInput atInput_step)
  have underscore: "CharFlags_Underscore \<in> CharTypes (Some Chars_Underscore)"
    by (simp add: CharTypes_def)
  from Cons.prems(2) have c: "flag \<in> CharTypes (Some c) \<or> c = Chars_Underscore"
    and run: "list_all (\<lambda>c. flag \<in> CharTypes (Some c) \<or> c = Chars_Underscore) r"
    by simp_all
  note IH = Cons.IH [OF next_input run Cons.prems(3)]
  show ?case
  proof (cases "c = Chars_Underscore")
    case True
    show ?thesis
      by (subst radixLoop.simps) (simp add: underscore step IH True doubledSeparator_Cons digitsOf_def)
  next
    case False
    with c have "flag \<in> CharTypes (Some c)" by simp
    with False show ?thesis
      by (subst radixLoop.simps) (simp add: step IH doubledSeparator_Cons digitsOf_def)
  qed
qed

lemma roundDouble_exact: "n < 2 ^ 53 \<Longrightarrow> roundDouble n = Fin n"
  by (simp add: roundDouble_def)

lemma accumulate_exact:
  assumes "0 < radix"
    and "list_all (\<lambda>c. digitOf (Some c) = digitValue c) ds"
    and "v * radix ^ length ds + radixValue radix ds < 2 ^ 53"
  shows "accumulate radix digitOf (Fin v) ds = Fin (v * radix ^ length ds + radixValue radix ds)"
  using assms
proof (induction ds arbitrary: v)
  case Nil
  then show ?case by simp
next
  case (Cons c ds)
  let ?v = "v * radix + digitValue c"
  have eq: "?v * radix ^ length ds + radixValue radix ds
      = v * radix ^ length (c # ds) + radixValue radix (c # ds)"
    by (simp add: algebra_simps)
  from Cons.prems(1) have "1 \<le> radix ^ length ds" by simp
  then have "?v * 1 \<le> ?v * radix ^ length ds"
    by (rule mult_le_mono2)
  with eq Cons.prems(3) have small: "?v < 2 ^ 53" by simp
  then have "v * radix < 2 ^ 53" by simp
  with small Cons.prems(2) have step: "jsAdd (jsMul (Fin v) radix) (digitOf (Some c)) = Fin ?v"
    by (simp add: roundDouble_exact)
  from Cons.prems(2) have "list_all (\<lambda>c. digitOf (Some c) = digitValue c) ds" by simp
  from Cons.IH [OF Cons.prems(1) this, of ?v] eq Cons.prems(3) step show ?case
    by simp
qed

lemma implicitOctalLoop_run:
  assumes "atInput p (r @ rest)"
    and "list_all (\<lambda>c. 48 \<le> c \<and> c \<le> 55) r"
    and "CharFlags_Octal \<notin> CharTypes (headCP rest)"
  shows "implicitOctalLoop p (headCP (r @ rest)) v kind atStart =
     (if CharFlags_ImplicitOctalDigits \<in> CharTypes (headCP rest)
      then (advance p (length r), headCP rest, accumulate 8 minusZero v r,
            {NumberKind_DecimalWithLeadingZero}, 0)
      else (advance p (length r), headCP rest, accumulate 8 minusZero v r, kind, atStart))"
  using assms
proof (induction r arbitrary: p v)
  case Nil
  show ?case
  proof (cases "headCP rest")
    case None
    with Nil show ?thesis
      by (subst implicitOctalLoop.simps) (simp add: advance_0)
  next
    case (Some c)
    with Nil show ?thesis
      by (subst implicitOctalLoop.simps)
         (auto simp: advance_0 Decimal_iff Octal_iff ImplicitOctalDigits_iff)
  qed
next
  case (Cons c r)
  from Cons.prems(1) have step: "nextCP' p = (headCP (r @ rest), advance p (Suc 0))"
    and next_input: "atInput (advance p (Suc 0)) (r @ rest)"
    by (simp_all add: nextCP'_atInput atInput_step)
  from Cons.prems(2) have c: "48 \<le> c \<and> c \<le> 55" and run: "list_all (\<lambda>c. 48 \<le> c \<and> c \<le> 55) r"
    by simp_all
  note IH = Cons.IH [OF next_input run Cons.prems(3)]
  from c show ?case
    by (subst implicitOctalLoop.simps) (simp add: step IH Decimal_iff ImplicitOctalDigits_iff)
qed

lemma slice_same [simp]: "slice s a a = []"
  by (simp add: slice_def)

lemma substring_same [simp]: "substring s a a = []"
  by (simp add: substring_def)

lemma substring_Suc:
  assumes "drop i s = c # xs" and "a \<le> i"
  shows "substring s a (Suc i) = substring s a i @ [c]"
proof -
  from assms(1) have lt: "i < length s" by (cases "i < length s") auto
  from hd_drop_conv_nth [OF lt] assms(1) have c: "s ! i = c" by simp
  from assms(2) lt have "take (Suc (i - a)) (drop a s) = take (i - a) (drop a s) @ [drop a s ! (i - a)]"
    by (intro take_Suc_conv_app_nth) simp
  with assms(2) lt c show ?thesis
    by (simp add: substring_def slice_def min_def max_def Suc_diff_le)
qed

lemma digitsOf_simps [simp]:
  "digitsOf [] = []"
  "digitsOf (c # cs) = (if c = Chars_Underscore then digitsOf cs else c # digitsOf cs)"
  by (simp_all add: digitsOf_def)

lemma trailingSeparator_Cons:
  "trailingSeparator (c # cs) = (if cs = [] then c = Chars_Underscore else trailingSeparator cs)"
  by simp

lemma decimalDigitsLoop_run:
  assumes "atInput p (r @ rest)"
    and "list_all (\<lambda>c. isDigit c \<or> c = Chars_Underscore) r"
    and "CharTypes (headCP rest) \<inter> {CharFlags_Decimal, CharFlags_Underscore} = {}"
    and "start \<le> index p"
  shows "case decimalDigitsLoop p (headCP (r @ rest)) a start ret of
      Inl e \<Rightarrow> e = ContinuousNumericSeparator \<and> doubledSeparator r
    | Inr (p', a', start', ret') \<Rightarrow>
        \<not> doubledSeparator r \<and> p' = advance p (length r) \<and>
        a' = (if r = [] then a else if trailingSeparator r then 1 else 0) \<and>
        start' \<le> index p' \<and>
        ret' @ substring (source p) start' (index p') =
          ret @ substring (source p) start (index p) @ digitsOf r"
  using assms
proof (induction r arbitrary: p a start ret)
  case Nil
  then show ?case
    by (subst decimalDigitsLoop.simps) (simp add: advance_0)
next
  case (Cons c r)
  from Cons.prems(1) have step: "nextCP' p = (headCP (r @ rest), advance p (Suc 0))"
    and next_input: "atInput (advance p (Suc 0)) (r @ rest)"
    by (simp_all add: nextCP'_atInput atInput_step)
  from Cons.prems(1) have here: "drop (index p) (source p) = c # r @ rest"
    by (simp add: atInput_def)
  from Cons.prems(2) have c: "isDigit c \<or> c = Chars_Underscore"
    and run: "list_all (\<lambda>c. isDigit c \<or> c = Chars_Underscore) r"
    by simp_all
  show ?case
  proof (cases "c = Chars_Underscore")
    case True
    have lead: "headCP (r @ rest) = Some Chars_Underscore \<longleftrightarrow> leadingSeparator r"
    proof (cases r)
      case Nil
      with Cons.prems(3) show ?thesis
        by (cases rest) (auto simp: Underscore_iff)
    next
      case (Cons c' r')
      then show ?thesis by simp
    qed
    have IH: "case decimalDigitsLoop (advance p (Suc 0)) (headCP (r @ rest)) 1 (index (advance p (Suc 0)))
                (ret @ substring (source p) start (index p)) of
        Inl e \<Rightarrow> e = ContinuousNumericSeparator \<and> doubledSeparator r
      | Inr (p', a', start', ret') \<Rightarrow>
          \<not> doubledSeparator r \<and> p' = advance (advance p (Suc 0)) (length r) \<and>
          a' = (if r = [] then 1 else if trailingSeparator r then 1 else 0) \<and>
          start' \<le> index p' \<and>
          ret' @ substring (source (advance p (Suc 0))) start' (index p') =
            (ret @ substring (source p) start (index p)) @
              substring (source (advance p (Suc 0))) (index (advance p (Suc 0))) (index (advance p (Suc 0))) @ digitsOf r"
      by (rule Cons.IH [OF next_input run Cons.prems(3)]) simp
    from True IH show ?thesis
      by (subst decimalDigitsLoop.simps)
         (auto simp: step lead doubledSeparator_Cons trailingSeparator_Cons Underscore_iff split: sum.splits)
  next
    case False
    with c have digit: "CharFlags_Decimal \<in> CharTypes (Some c)"
      by (simp add: isDigit_def Decimal_iff)
    from Cons.prems(4) have le: "start \<le> index (advance p (Suc 0))" by simp
    note IH = Cons.IH [OF next_input run Cons.prems(3) le, of 0 ret]
    from False digit IH show ?thesis
      by (subst decimalDigitsLoop.simps)
         (auto simp: step doubledSeparator_Cons trailingSeparator_Cons substring_Suc [OF here Cons.prems(4)] split: sum.splits)
  qed
qed

lemma scanDecimalDigitsOrSeparator_run:
  assumes "atInput p (r @ rest)"
    and "list_all (\<lambda>c. isDigit c \<or> c = Chars_Underscore) r"
    and "CharTypes (headCP rest) \<inter> {CharFlags_Decimal, CharFlags_Underscore} = {}"
  shows "scanDecimalDigitsOrSeparator p (headCP (r @ rest)) =
     (if doubledSeparator r then Inl ContinuousNumericSeparator
      else if trailingSeparator r then Inl TrailingNumericSeparator
      else Inr (digitsOf r, advance p (length r)))"
  using decimalDigitsLoop_run [OF assms, of "index p" 0 "[]"]
  by (auto simp: scanDecimalDigitsOrSeparator_def split: sum.splits if_splits)

lemma isIdentifierStart_None [simp]: "\<not> isIdentifierStart u None"
  by (simp add: isIdentifierStart_def)

lemma isIdentifierStart_ascii:
  "c \<le> 127 \<Longrightarrow> isIdentifierStart u (Some c) = (CharFlags_IdentifierStart \<in> CharTypes (Some c))"
  by (simp add: isIdentifierStart_def)

lemma endsNumeral_stop:
  assumes "endsNumeral u rest" and "flag \<in> {CharFlags_Hex, CharFlags_Octal, CharFlags_Binary, CharFlags_Decimal}"
  shows "CharTypes (headCP rest) \<inter> {flag, CharFlags_Underscore} = {}"
proof (cases "headCP rest")
  case None
  then show ?thesis by simp
next
  case (Some c)
  with assms(1) have a: "\<not> isIdentifierStart u (Some c)" and d: "\<not> (48 \<le> c \<and> c \<le> 57)"
    by (simp_all add: endsNumeral_def Decimal_iff)
  from a have "c \<le> 127 \<Longrightarrow> CharFlags_IdentifierStart \<notin> CharTypes (Some c)"
    by (simp add: isIdentifierStart_ascii)
  then have i: "c \<le> 127 \<Longrightarrow> \<not> ((65 \<le> c \<and> c \<le> 90) \<or> (97 \<le> c \<and> c \<le> 122) \<or> c = 36 \<or> c = 92 \<or> c = 95)"
    by (simp add: IdentifierStart_iff)
  from assms(2) d i Some show ?thesis
    by (auto simp: Hex_iff Octal_iff Binary_iff Decimal_iff Underscore_iff)
qed

lemma endsNumeral_not_letter:
  assumes "endsNumeral u rest"
  shows "headCP rest \<noteq> Some Chars_LowerN" "or32 (headCP rest) \<noteq> Chars_LowerE"
    "headCP rest \<noteq> Some Chars_Underscore"
  using assms
  by (auto simp: endsNumeral_def or32_LowerE isIdentifierStart_ascii IdentifierStart_iff)

lemma toHex_digitValue:
  "CharFlags_Hex \<in> CharTypes (Some c) \<Longrightarrow> toHex (Some c) = digitValue c"
  by (auto simp: Hex_iff toHex_def digitValue_def)

lemma minusZero_digitValue:
  "CharFlags_Decimal \<in> CharTypes (Some c) \<Longrightarrow> minusZero (Some c) = digitValue c"
  by (auto simp: Decimal_iff minusZero_def digitValue_def)

lemma scanNumberZero_radix:
  assumes input: "atInput p (Chars_Zero # x # body @ rest)"
    and prefix: "radixOfPrefix x = Some (flag, radix, k)"
    and run: "list_all (\<lambda>c. flag \<in> CharTypes (Some c) \<or> c = Chars_Underscore) body"
    and stop: "CharTypes (headCP rest) \<inter> {flag, CharFlags_Underscore} = {}"
  shows "scanNumberZero p context kind (Fin 0) atStart 0 0 =
     (if leadingSeparator body \<or> doubledSeparator body then Inl ContinuousNumericSeparator
      else if digitsOf body = [] then Inl MissingHexDigits
      else if trailingSeparator body then Inl TrailingNumericSeparator
      else Inr (advance p (2 + length body), headCP rest, {k},
                accumulate radix (if flag = CharFlags_Hex then toHex else minusZero) (Fin 0) (digitsOf body),
                atStart, 1))"
proof -
  from input have step1: "nextCP' p = (Some x, advance p (Suc 0))"
    and input1: "atInput (advance p (Suc 0)) (x # body @ rest)"
    by (simp_all add: nextCP'_atInput atInput_step)
  from input1 have step2: "nextCP' (advance p (Suc 0)) = (headCP (body @ rest), advance p (Suc (Suc 0)))"
    and input2: "atInput (advance p (Suc (Suc 0))) (body @ rest)"
    using nextCP'_atInput [OF input1] atInput_step [OF input1] by simp_all
  note loop = radixLoop_run [OF input2 run stop, where radix = radix and v = "Fin 0" and n = 0 and a = 0]
  have empty: "body = [] \<longleftrightarrow> digitsOf body = [] \<and> \<not> leadingSeparator body"
    by (cases body) auto
  from prefix consider
      (hex) "x = Chars_LowerX \<or> x = 88" "flag = CharFlags_Hex" "radix = 16" "k = NumberKind_Hex"
    | (octal) "x = Chars_LowerO \<or> x = 79" "flag = CharFlags_Octal" "radix = 8" "k = NumberKind_Octal"
    | (binary) "x = Chars_LowerB \<or> x = 66" "flag = CharFlags_Binary" "radix = 2" "k = NumberKind_Binary"
    by (auto simp: radixOfPrefix_def split: if_splits)
  then show ?thesis
  proof cases
    case hex
    then have "or32 (Some x) = Chars_LowerX"
      by (simp add: or32_LowerX)
    with hex(2-4) empty loop [where digitOf = toHex] show ?thesis
      by (auto simp: scanNumberZero_def step1 step2)
  next
    case octal
    then have "or32 (Some x) = Chars_LowerO" "or32 (Some x) \<noteq> Chars_LowerX"
      by (auto simp: or32_LowerO or32_LowerX)
    with octal(2-4) empty loop [where digitOf = minusZero] show ?thesis
      by (auto simp: scanNumberZero_def step1 step2)
  next
    case binary
    then have "or32 (Some x) = Chars_LowerB" "or32 (Some x) \<noteq> Chars_LowerX" "or32 (Some x) \<noteq> Chars_LowerO"
      by (auto simp: or32_LowerO or32_LowerX or32_LowerB)
    with binary(2-4) empty loop [where digitOf = minusZero] show ?thesis
      by (auto simp: scanNumberZero_def step1 step2)
  qed
qed

lemma scanNumberSuffix_end:
  assumes "endsNumeral u rest"
  shows "scanNumberSuffix u p context kind value (headCP rest) =
     scanNumberToken u p context kind value (headCP rest) 0"
    and "outcome (scanNumberToken u p context kind value (headCP rest) 0) =
     Inr (NumericLiteral,
       if kind \<inter> {NumberKind_ImplicitOctal, NumberKind_Binary, NumberKind_Hex, NumberKind_Octal} \<noteq> {}
       then value
       else if NumberKind_DecimalWithLeadingZero \<in> kind
       then parseFloat (substring (source p) (tokenIndex p) (index p))
       else toNumber value)"
proof -
  from endsNumeral_not_letter [OF assms]
  show "scanNumberSuffix u p context kind value (headCP rest) =
     scanNumberToken u p context kind value (headCP rest) 0"
    by (simp add: scanNumberSuffix_def scanNumberExponent_def)
  from assms
  show "outcome (scanNumberToken u p context kind value (headCP rest) 0) =
     Inr (NumericLiteral,
       if kind \<inter> {NumberKind_ImplicitOctal, NumberKind_Binary, NumberKind_Hex, NumberKind_Octal} \<noteq> {}
       then value
       else if NumberKind_DecimalWithLeadingZero \<in> kind
       then parseFloat (substring (source p) (tokenIndex p) (index p))
       else toNumber value)"
    by (simp add: scanNumberToken_def endsNumeral_def outcome_def Let_def)
qed

lemma radix_kind:
  assumes "radixOfPrefix x = Some (flag, radix, k)"
  shows "{k} \<inter> DecimalNumberKind = {}"
    and "{k} \<inter> {NumberKind_ImplicitOctal, NumberKind_Binary, NumberKind_Hex, NumberKind_Octal} \<noteq> {}"
    and "0 < radix"
    and "flag \<in> {CharFlags_Hex, CharFlags_Octal, CharFlags_Binary, CharFlags_Decimal}"
  using assms by (auto simp: radixOfPrefix_def DecimalNumberKind_def split: if_splits)

lemma radix_digitValue:
  assumes "radixOfPrefix x = Some (flag, radix, k)" and "flag \<in> CharTypes (Some c)"
  shows "(if flag = CharFlags_Hex then toHex else minusZero) (Some c) = digitValue c"
proof -
  from assms(1) consider "flag = CharFlags_Hex" | "flag = CharFlags_Octal" | "flag = CharFlags_Binary"
    by (auto simp: radixOfPrefix_def split: if_splits)
  then show ?thesis
  proof cases
    case 1
    with assms(2) show ?thesis by (simp add: toHex_digitValue)
  next
    case 2
    with assms(2) have "CharFlags_Decimal \<in> CharTypes (Some c)"
      by (simp add: Octal_iff Decimal_iff)
    with 2 show ?thesis by (simp add: minusZero_digitValue)
  next
    case 3
    with assms(2) have "CharFlags_Decimal \<in> CharTypes (Some c)"
      by (auto simp: Binary_iff Decimal_iff)
    with 3 show ?thesis by (simp add: minusZero_digitValue)
  qed
qed

subsection \<open>The fields that the loops leave unchanged\<close>

lemma sameToken_refl [simp]: "sameToken p p"
  by (simp add: sameToken_def)

lemma sameToken_trans: "sameToken p q \<Longrightarrow> sameToken q r \<Longrightarrow> sameToken p r"
  by (simp add: sameToken_def)

lemma sameToken_nextCP': "(c, p') = nextCP' p \<Longrightarrow> sameToken p p'"
  by (simp add: nextCP'_def sameToken_def Let_def)

lemma sameToken_nextCP'_trans: "(c, q) = nextCP' p \<Longrightarrow> sameToken q r \<Longrightarrow> sameToken p r"
  using sameToken_nextCP' sameToken_trans by blast

lemma sameToken_decimalDigitsLoop:
  "decimalDigitsLoop p char a start ret = Inr (p', r) \<Longrightarrow> sameToken p p'"
proof (induction p char a start ret rule: decimalDigitsLoop.induct)
  case (1 parser char allowSeparator start ret)
  obtain c q where step: "nextCP' parser = (c, q)"
    by (cases "nextCP' parser")
  then have q: "sameToken parser q"
    using sameToken_nextCP' [of c q parser] by simp
  show ?case
  proof (cases "CharTypes char \<inter> {CharFlags_Decimal, CharFlags_Underscore} \<noteq> {}")
    case False
    with "1.prems" show ?thesis
      by (subst (asm) decimalDigitsLoop.simps) simp
  next
    case continues: True
    show ?thesis
    proof (cases "char = Some Chars_Underscore")
      case True
      from "1.prems" have "(if c = Some Chars_Underscore then Inl ContinuousNumericSeparator
          else decimalDigitsLoop q c 1 (index q) (ret @ substring (source q) start (index parser)))
          = Inr (p', r)"
        by (subst (asm) decimalDigitsLoop.simps, subst (asm) if_P [OF continues], subst (asm) if_P [OF True])
           (simp add: step)
      then have ne: "c \<noteq> Some Chars_Underscore"
        and rec: "decimalDigitsLoop q c 1 (index q) (ret @ substring (source q) start (index parser)) = Inr (p', r)"
        by (simp_all split: if_splits)
      from "1.IH"(1) [OF continues True refl refl step [symmetric] ne rec] q show ?thesis
        by (blast intro: sameToken_trans)
    next
      case False
      from "1.prems" have rec: "decimalDigitsLoop q c 0 start ret = Inr (p', r)"
        by (subst (asm) decimalDigitsLoop.simps, subst (asm) if_P [OF continues], subst (asm) if_not_P [OF False])
           (simp add: step)
      from "1.IH"(2) [OF continues False refl step [symmetric] rec] q show ?thesis
        by (blast intro: sameToken_trans)
    qed
  qed
qed

lemma sameToken_scanDecimalDigitsOrSeparator:
  "scanDecimalDigitsOrSeparator p char = Inr (s, p') \<Longrightarrow> sameToken p p'"
  by (auto simp: scanDecimalDigitsOrSeparator_def split: sum.splits if_splits
      dest: sameToken_decimalDigitsLoop)

lemma sameToken_radixLoop:
  "radixLoop flag radix digitOf p char v n a = Inr (p', r) \<Longrightarrow> sameToken p p'"
proof (induction flag radix digitOf p char v n a rule: radixLoop.induct)
  case (1 flag radix digitOf parser char "value" digits allowSeparator)
  obtain c q where step: "nextCP' parser = (c, q)"
    by (cases "nextCP' parser")
  then have q: "sameToken parser q"
    using sameToken_nextCP' [of c q parser] by simp
  show ?case
  proof (cases "CharTypes char \<inter> {flag, CharFlags_Underscore} \<noteq> {}")
    case False
    with "1.prems" show ?thesis
      by (subst (asm) radixLoop.simps) simp
  next
    case continues: True
    show ?thesis
    proof (cases "char = Some Chars_Underscore")
      case True
      from "1.prems" have ne: "allowSeparator \<noteq> 0"
        and rec: "radixLoop flag radix digitOf q c value digits 0 = Inr (p', r)"
        by (subst (asm) radixLoop.simps, subst (asm) if_P [OF continues], subst (asm) if_P [OF True],
            simp add: step split: if_splits)+
      from "1.IH"(1) [OF continues True ne refl step [symmetric] rec] q show ?thesis
        by (blast intro: sameToken_trans)
    next
      case False
      from "1.prems" have rec: "radixLoop flag radix digitOf q c
          (jsAdd (jsMul value radix) (digitOf char)) (digits + 1) 1 = Inr (p', r)"
        by (subst (asm) radixLoop.simps, subst (asm) if_P [OF continues], subst (asm) if_not_P [OF False])
           (simp add: step Let_def)
      from "1.IH"(2) [OF continues False refl refl step [symmetric] rec] q show ?thesis
        by (blast intro: sameToken_trans)
    qed
  qed
qed

lemma sameToken_implicitOctalLoop:
  "implicitOctalLoop p char v kind atStart = (p', c', v', kind', atStart') \<Longrightarrow>
     sameToken p p' \<and> flags p' = flags p \<and> (atStart = 0 \<longrightarrow> atStart' = 0)"
proof (induction p char v kind atStart rule: implicitOctalLoop.induct)
  case (1 parser char "value" kind atStart)
  obtain c q where step: "nextCP' parser = (c, q)"
    by (cases "nextCP' parser")
  then have q: "sameToken parser q" and f: "flags q = flags parser"
    using sameToken_nextCP' [of c q parser] by (auto simp: nextCP'_def Let_def)
  show ?case
  proof (cases "CharFlags_Decimal \<in> CharTypes char")
    case False
    with "1.prems" show ?thesis
      by (subst (asm) implicitOctalLoop.simps) auto
  next
    case continues: True
    show ?thesis
    proof (cases "CharFlags_ImplicitOctalDigits \<in> CharTypes char")
      case True
      from "1.prems" show ?thesis
        by (subst (asm) implicitOctalLoop.simps, subst (asm) if_P [OF continues], subst (asm) if_P [OF True])
           auto
    next
      case False
      from "1.prems" have rec: "implicitOctalLoop q c (jsAdd (jsMul value 8) (minusZero char)) kind atStart
          = (p', c', v', kind', atStart')"
        by (subst (asm) implicitOctalLoop.simps, subst (asm) if_P [OF continues], subst (asm) if_not_P [OF False])
           (simp add: step Let_def)
      from "1.IH" [OF continues False refl refl step [symmetric] rec] q f show ?thesis
        by (auto intro: sameToken_trans)
    qed
  qed
qed

lemma sameToken_decimalFastLoop:
  "decimalFastLoop p char v digit a = Inr (p', r) \<Longrightarrow> sameToken p p'"
proof (induction p char v digit a rule: decimalFastLoop.induct)
  case (1 parser char "value" digit allowSeparator)
  obtain c q where step: "nextCP' parser = (c, q)"
    by (cases "nextCP' parser")
  then have q: "sameToken parser q"
    using sameToken_nextCP' [of c q parser] by simp
  show ?case
  proof (cases "0 \<le> digit \<and> CharTypes char \<inter> {CharFlags_Decimal, CharFlags_Underscore} \<noteq> {}")
    case False
    with "1.prems" show ?thesis
      by (subst (asm) decimalFastLoop.simps) auto
  next
    case continues: True
    show ?thesis
    proof (cases "char = Some Chars_Underscore")
      case True
      from "1.prems" continues have "(if c = Some Chars_Underscore then Inl ContinuousNumericSeparator
          else decimalFastLoop q c value digit 1) = Inr (p', r)"
        by (subst (asm) decimalFastLoop.simps, subst (asm) if_P [OF continues], subst (asm) if_P [OF True])
           (simp add: step)
      then have ne: "c \<noteq> Some Chars_Underscore"
        and rec: "decimalFastLoop q c value digit 1 = Inr (p', r)"
        by (simp_all split: if_splits)
      from "1.IH"(1) [OF continues True refl step [symmetric] ne rec] q show ?thesis
        by (blast intro: sameToken_trans)
    next
      case False
      from "1.prems" continues have rec: "decimalFastLoop q c (jsAdd (jsMul value 10) (minusZero char))
          (digit - 1) 0 = Inr (p', r)"
        by (subst (asm) decimalFastLoop.simps, subst (asm) if_P [OF continues], subst (asm) if_not_P [OF False])
           (simp add: step Let_def)
      from "1.IH"(2) [OF continues False refl refl step [symmetric] rec] q show ?thesis
        by (blast intro: sameToken_trans)
    qed
  qed
qed

lemma sameToken_step: "nextCP' p = (c, q) \<Longrightarrow> sameToken p q \<and> flags q = flags p"
  by (auto simp: nextCP'_def sameToken_def Let_def)

lemma sameToken_flags [simp]: "sameToken p (q\<lparr>flags := f\<rparr>) = sameToken p q"
  by (simp add: sameToken_def)

lemma sameToken_scanNumberZero:
  assumes "scanNumberZero p context kind v atStart d a = Inr (p', c', k', v', atStart', a')"
  shows "sameToken p p' \<and> (atStart = 0 \<longrightarrow> atStart' = 0)"
proof -
  obtain c1 q1 where step1: "nextCP' p = (c1, q1)"
    by (cases "nextCP' p")
  obtain c2 q2 where step2: "nextCP' q1 = (c2, q2)"
    by (cases "nextCP' q1")
  from sameToken_step [OF step1] sameToken_step [OF step2]
  have q1: "sameToken p q1" and q2: "sameToken p q2"
    by (auto intro: sameToken_trans)
  obtain q3 c3 v3 k3 s3 where octal:
    "implicitOctalLoop q1 c1 v {NumberKind_ImplicitOctal} atStart = (q3, c3, v3, k3, s3)"
    by (metis prod_cases5)
  from sameToken_implicitOctalLoop [OF octal] q1
  have q3: "sameToken p q3" "atStart = 0 \<longrightarrow> s3 = 0"
    by (auto intro: sameToken_trans)
  from assms q1 q2 q3 show ?thesis
    by (auto simp: scanNumberZero_def step1 step2 octal split: if_splits sum.splits
        dest!: sameToken_radixLoop intro: sameToken_trans)
qed

lemma sameToken_scanNumberFraction:
  assumes "scanNumberFraction p kind v char = Inr (p', r)"
  shows "sameToken p p'"
proof -
  from assms obtain s q where first: "scanDecimalDigitsOrSeparator p char = Inr (s, q)"
    by (auto simp: scanNumberFraction_def split: sum.splits)
  note q = sameToken_scanDecimalDigitsOrSeparator [OF first]
  obtain c1 q1 where step: "nextCP' q = (c1, q1)"
    by (cases "nextCP' q")
  from sameToken_step [OF step] q have q1: "sameToken p q1"
    by (auto intro: sameToken_trans)
  from assms q q1 show ?thesis
    by (auto simp: scanNumberFraction_def first step Let_def split: if_splits sum.splits
        dest!: sameToken_scanDecimalDigitsOrSeparator intro: sameToken_trans)
qed

lemma sameToken_scanNumberDecimal:
  assumes "scanNumberDecimal u p context kind 0 v char digit a = Inr r"
  shows "\<exists>p' k' v' c'. r = Continue (p', k', v', c') \<and> sameToken p p'"
  using assms
  by (auto simp: scanNumberTail_def scanNumberDecimal_def split: if_splits sum.splits
      dest!: sameToken_scanNumberFraction)

lemma sameToken_scanNumberExponent:
  assumes "scanNumberExponent p kind v char = Inr (b, p', v', c')"
  shows "sameToken p p'"
proof -
  obtain c1 q1 where step1: "nextCP' p = (c1, q1)"
    by (cases "nextCP' p")
  obtain c2 q2 where step2: "nextCP' q1 = (c2, q2)"
    by (cases "nextCP' q1")
  from sameToken_step [OF step1] sameToken_step [OF step2]
  have q1: "sameToken p q1" and q2: "sameToken p q2"
    by (auto intro: sameToken_trans)
  from assms q1 q2 show ?thesis
    by (auto simp: scanNumberExponent_def step1 step2 Let_def split: if_splits sum.splits
        dest!: sameToken_scanDecimalDigitsOrSeparator intro: sameToken_trans)
qed

lemma tokenRaw_scanNumberToken:
  assumes "scanNumberToken u p context kind v char b = Inr (token, p')"
  shows "tokenRaw p' =
     (if token = BigIntLiteral \<or> Context_OptionsRaw \<in> context
      then slice (source p) (tokenIndex p) (index p) else tokenRaw p) \<and> index p' = index p"
  using assms by (auto simp: scanNumberToken_def Let_def split: if_splits)

lemma tokenRaw_scanNumberSuffix:
  assumes "scanNumberSuffix u p context kind v char = Inr (token, p')"
  shows "tokenRaw p' =
     (if token = BigIntLiteral \<or> Context_OptionsRaw \<in> context
      then slice (source p) (tokenIndex p) (index p') else tokenRaw p)"
proof -
  from assms obtain b q v' c' where e: "scanNumberExponent p kind v char = Inr (b, q, v', c')"
    and t: "scanNumberToken u q context kind v' c' b = Inr (token, p')"
    by (auto simp: scanNumberSuffix_def split: sum.splits)
  from sameToken_scanNumberExponent [OF e] tokenRaw_scanNumberToken [OF t] show ?thesis
    by (simp add: sameToken_def)
qed

lemma scanNumberToken_end:
  assumes "endsNumeral u rest"
  shows "scanNumberToken u p context kind v (headCP rest) 0 =
     Inr (NumericLiteral,
       let tv = (if kind \<inter> {NumberKind_ImplicitOctal, NumberKind_Binary, NumberKind_Hex, NumberKind_Octal} \<noteq> {}
                 then v
                 else if NumberKind_DecimalWithLeadingZero \<in> kind
                 then parseFloat (substring (source p) (tokenIndex p) (index p))
                 else toNumber v)
       in if Context_OptionsRaw \<in> context
          then p\<lparr>tokenValue := tv, tokenRaw := slice (source p) (tokenIndex p) (index p)\<rparr>
          else p\<lparr>tokenValue := tv\<rparr>)"
  using assms by (simp add: scanNumberToken_def endsNumeral_def Let_def)

lemma octal_not_prefix:
  assumes "CharFlags_Decimal \<in> CharTypes (Some c)"
  shows "or32 (Some c) \<noteq> Chars_LowerX" "or32 (Some c) \<noteq> Chars_LowerO" "or32 (Some c) \<noteq> Chars_LowerB"
  using assms by (auto simp: or32_LowerX or32_LowerO or32_LowerB Decimal_iff)

lemma radixValue_octal:
  "list_all (\<lambda>c. 48 \<le> c \<and> c \<le> 55) ds \<Longrightarrow> list_all (\<lambda>c. minusZero (Some c) = digitValue c) ds"
  by (induction ds) (auto simp: minusZero_def digitValue_def)

lemma endsNumeral_no_digit:
  assumes "endsNumeral u rest"
  shows "CharFlags_Octal \<notin> CharTypes (headCP rest)"
    and "CharFlags_ImplicitOctalDigits \<notin> CharTypes (headCP rest)"
    and "CharFlags_Decimal \<notin> CharTypes (headCP rest)"
proof -
  from assms have d: "CharFlags_Decimal \<notin> CharTypes (headCP rest)"
    by (simp add: endsNumeral_def)
  have "CharFlags_Octal \<notin> CharTypes (headCP rest) \<and>
      CharFlags_ImplicitOctalDigits \<notin> CharTypes (headCP rest)"
  proof (cases "headCP rest")
    case None
    then show ?thesis by simp
  next
    case (Some c)
    with d show ?thesis
      by (auto simp: Decimal_iff Octal_iff ImplicitOctalDigits_iff)
  qed
  with d show "CharFlags_Octal \<notin> CharTypes (headCP rest)"
    and "CharFlags_ImplicitOctalDigits \<notin> CharTypes (headCP rest)"
    and "CharFlags_Decimal \<notin> CharTypes (headCP rest)"
    by simp_all
qed

lemma digitRun_afterRun: "digitRun xs @ afterRun xs = xs"
  by (simp add: digitRun_def afterRun_def)

lemma digitRun_all: "list_all (\<lambda>c. isDigit c \<or> c = Chars_Underscore) (digitRun xs)"
  by (induction xs) (auto simp: digitRun_def isRunChar_def)

lemma isRunChar_flags:
  "isRunChar c \<longleftrightarrow> CharTypes (Some c) \<inter> {CharFlags_Decimal, CharFlags_Underscore} \<noteq> {}"
  by (auto simp: isRunChar_def isDigit_def Decimal_iff Underscore_iff)

lemma afterRun_stop: "CharTypes (headCP (afterRun xs)) \<inter> {CharFlags_Decimal, CharFlags_Underscore} = {}"
proof (cases "afterRun xs")
  case Nil
  then show ?thesis by simp
next
  case (Cons c cs)
  then have "\<not> isRunChar c"
    using hd_dropWhile [of isRunChar xs] by (auto simp: afterRun_def)
  with Cons show ?thesis
    by (simp add: isRunChar_flags)
qed

lemma scanDecimalDigitsOrSeparator_any:
  assumes "atInput p xs"
  shows "scanDecimalDigitsOrSeparator p (headCP xs) =
     (if doubledSeparator (digitRun xs) then Inl ContinuousNumericSeparator
      else if trailingSeparator (digitRun xs) then Inl TrailingNumericSeparator
      else Inr (digitsOf (digitRun xs), advance p (length (digitRun xs))))"
  using scanDecimalDigitsOrSeparator_run [of p "digitRun xs" "afterRun xs"] assms
  by (simp add: digitRun_afterRun digitRun_all afterRun_stop)

lemma digitRun_Nil [simp]: "digitRun [] = []" "afterRun [] = []"
  by (simp_all add: digitRun_def afterRun_def)

lemma digitRun_Cons:
  "digitRun (c # cs) = (if isRunChar c then c # digitRun cs else [])"
  "afterRun (c # cs) = (if isRunChar c then afterRun cs else c # cs)"
  by (simp_all add: digitRun_def afterRun_def)

lemma digitRun_append:
  assumes "list_all isRunChar r" and "\<not> isRunChar c"
  shows "digitRun (r @ c # xs) = r" "afterRun (r @ c # xs) = c # xs"
  using assms by (induction r) (simp_all add: digitRun_Cons)

lemma leading_headCP: "leadingSeparator (digitRun xs) \<longleftrightarrow> headCP xs = Some Chars_Underscore"
  by (cases xs) (auto simp: digitRun_Cons isRunChar_def)

lemma atInput_tokenValue [simp]: "atInput (p\<lparr>flags := f\<rparr>) xs = atInput p xs"
  by (simp add: atInput_def)

lemma charCodeAt_after_run:
  assumes "atInput p xs"
  shows "charCodeAt (source p) (index p + length (digitRun xs)) = headCP (afterRun xs)"
  using atInput_advance [of p "digitRun xs" "afterRun xs"] assms
  by (simp add: digitRun_afterRun atInput_def)

lemma scanNumberFraction_any:
  assumes "atInput p xs"
  shows "scanNumberFraction p kind v (headCP xs) =
     (if doubledSeparator (digitRun xs) then Inl ContinuousNumericSeparator
      else if trailingSeparator (digitRun xs) then Inl TrailingNumericSeparator
      else case afterRun xs of
          [] \<Rightarrow> Inr (advance p (length (digitRun xs)), kind, concatAny (Num v) (digitsOf (digitRun xs)), None)
        | c # ys \<Rightarrow>
            if c = Chars_Period then
              if leadingSeparator (digitRun ys) then Inl Unexpected
              else if doubledSeparator (digitRun ys) then Inl ContinuousNumericSeparator
              else if trailingSeparator (digitRun ys) then Inl TrailingNumericSeparator
              else Inr (advance p (length (digitRun xs) + 1 + length (digitRun ys)), {NumberKind_Float},
                        concatAny (concatAny (Num v) (digitsOf (digitRun xs))) (Chars_Period # digitsOf (digitRun ys)),
                        headCP (afterRun ys))
            else Inr (advance p (length (digitRun xs)), kind, concatAny (Num v) (digitsOf (digitRun xs)), Some c))"
proof -
  let ?n = "length (digitRun xs)"
  from assms have q: "atInput (advance p ?n) (afterRun xs)"
    using atInput_advance [of p "digitRun xs" "afterRun xs"] by (simp add: digitRun_afterRun)
  note first = scanDecimalDigitsOrSeparator_any [OF assms]
  show ?thesis
  proof (cases "afterRun xs")
    case Nil
    with q show ?thesis
      by (simp add: scanNumberFraction_def first atInput_def)
  next
    case (Cons c ys)
    with q have qc: "atInput (advance p ?n) (c # ys)" by simp
    then have char: "charCodeAt (source p) (index p + ?n) = Some c"
      by (simp add: atInput_def)
    from nextCP'_atInput [OF qc] have step: "nextCP' (advance p ?n) = (headCP ys, advance p (Suc ?n))"
      by simp
    from atInput_step [OF qc] have q1: "atInput (advance p (Suc ?n)) ys"
      by simp
    note second = scanDecimalDigitsOrSeparator_any [OF q1]
    from q1 have char1: "charCodeAt (source p) (Suc (index p + ?n)) = headCP ys"
      by (simp add: atInput_def)
    from charCodeAt_after_run [OF q1]
    have last: "charCodeAt (source p) (Suc (index p + (?n + length (digitRun ys)))) = headCP (afterRun ys)"
      by (simp add: add.assoc)
    show ?thesis
      by (simp add: scanNumberFraction_def first Cons char char1 step second leading_headCP last Let_def)
  qed
qed

lemma scanNumberToken_error:
  "scanNumberToken u p context kind v char b = Inl e \<Longrightarrow> e = IDStartAfterNumber"
  by (simp add: scanNumberToken_def Let_def split: if_splits)

lemma afterSign_cases:
  obtains (unsigned) "afterSign text = text" and "CharFlags_Exponent \<notin> CharTypes (headCP text)"
  | (signed) c where "text = c # afterSign text" and "CharFlags_Exponent \<in> CharTypes (Some c)"
proof (cases "text")
  case Nil
  then show ?thesis by (intro unsigned) (simp_all add: afterSign_def)
next
  case (Cons c cs)
  show ?thesis
  proof (cases "c = 43 \<or> c = 45")
    case True
    with Cons show ?thesis by (intro signed [of c]) (auto simp: afterSign_def Exponent_iff)
  next
    case False
    with Cons show ?thesis by (intro unsigned) (auto simp: afterSign_def Exponent_iff)
  qed
qed

lemma scanNumberExponent_any:
  assumes input: "atInput p (e # text)" and e: "e = Chars_LowerE \<or> e = 69"
  shows "case scanNumberExponent p kind v (Some e) of
      Inl err \<Rightarrow>
        err = (if CharFlags_Decimal \<notin> CharTypes (headCP (afterSign text)) then MissingExponent
               else if doubledSeparator (digitRun (afterSign text)) then ContinuousNumericSeparator
               else TrailingNumericSeparator) \<and>
        (CharFlags_Decimal \<notin> CharTypes (headCP (afterSign text)) \<or>
         doubledSeparator (digitRun (afterSign text)) \<or> trailingSeparator (digitRun (afterSign text)))
    | Inr (b, q, v', c') \<Rightarrow>
        b = 0 \<and> CharFlags_Decimal \<in> CharTypes (headCP (afterSign text)) \<and>
        \<not> doubledSeparator (digitRun (afterSign text)) \<and>
        \<not> trailingSeparator (digitRun (afterSign text))"
proof -
  from e have marker: "Some e \<noteq> Some Chars_LowerN" "or32 (Some e) = Chars_LowerE"
    by (auto simp: or32_LowerE)
  note step1 = nextCP'_atInput [OF input]
  note input1 = atInput_step [OF input]
  show ?thesis
  proof (cases "text" rule: afterSign_cases)
    case unsigned
    note digits = scanDecimalDigitsOrSeparator_any [OF input1]
    from unsigned marker show ?thesis
      by (simp add: scanNumberExponent_def step1 digits Let_def)
  next
    case (signed c)
    with input1 have input1': "atInput (advance p (Suc 0)) (c # afterSign text)"
      by simp
    from nextCP'_atInput [OF input1']
    have step2: "nextCP' (advance p (Suc 0)) = (headCP (afterSign text), advance p (Suc (Suc 0)))"
      by simp
    from atInput_step [OF input1'] have input2: "atInput (advance p (Suc (Suc 0))) (afterSign text)"
      by simp
    note digits = scanDecimalDigitsOrSeparator_any [OF input2]
    have hd: "headCP text = Some c"
      using signed(1) by (cases "text") auto
    from signed(2) marker show ?thesis
      by (simp add: scanNumberExponent_def step1 hd step2 digits Let_def)
  qed
qed

lemma scanNumberSuffix_exponent:
  assumes input: "atInput p (e # text)" and e: "e = Chars_LowerE \<or> e = 69"
  shows "scanNumberSuffix u p context kind v (Some e) = Inl MissingExponent \<longleftrightarrow>
      CharFlags_Decimal \<notin> CharTypes (headCP (afterSign text))"
    and "misplacedSeparator (digitRun (afterSign text)) \<Longrightarrow>
      isl (scanNumberSuffix u p context kind v (Some e))"
proof -
  note exponent = scanNumberExponent_any [OF input e, of kind v]
  show "scanNumberSuffix u p context kind v (Some e) = Inl MissingExponent \<longleftrightarrow>
      CharFlags_Decimal \<notin> CharTypes (headCP (afterSign text))"
    using exponent
    by (auto simp: scanNumberSuffix_def split: sum.splits dest: scanNumberToken_error)
  assume "misplacedSeparator (digitRun (afterSign text))"
  moreover have "leadingSeparator (digitRun (afterSign text)) \<Longrightarrow>
      CharFlags_Decimal \<notin> CharTypes (headCP (afterSign text))"
    by (simp add: leading_headCP Decimal_iff)
  ultimately show "isl (scanNumberSuffix u p context kind v (Some e))"
    using exponent
    by (auto simp: scanNumberSuffix_def misplacedSeparator_def split: sum.splits)
qed

lemma not_isRunChar [simp]:
  "\<not> isRunChar Chars_Period" "\<not> isRunChar Chars_LowerE" "\<not> isRunChar 69"
  by (simp_all add: isRunChar_def isDigit_def)

lemma doubledSeparator_digit:
  "c \<noteq> Chars_Underscore \<Longrightarrow> doubledSeparator (c # cs) = doubledSeparator cs"
  by (simp add: doubledSeparator_Cons)

lemma trailingSeparator_digit:
  "c \<noteq> Chars_Underscore \<Longrightarrow> trailingSeparator (c # cs) = trailingSeparator cs"
  by (simp add: trailingSeparator_Cons)

lemma scanNumberFraction_mantissa:
  assumes input: "atInput q (r1 @ frac @ e # rest)"
    and r1: "list_all isRunChar r1" "\<not> doubledSeparator r1" "\<not> trailingSeparator r1"
    and frac: "fractionPart frac"
    and e: "e = Chars_LowerE \<or> e = 69"
  shows "\<exists>q' k v. atInput q' (e # rest) \<and>
     scanNumberFraction q kind value (headCP (r1 @ frac @ e # rest)) = Inr (q', k, v, Some e)"
proof (cases frac)
  case Nil
  from e r1(1) have run: "digitRun (r1 @ e # rest) = r1" "afterRun (r1 @ e # rest) = e # rest"
    by (auto simp: digitRun_append)
  from input Nil have q': "atInput (advance q (length r1)) (e # rest)"
    using atInput_advance [of q r1 "e # rest"] by simp
  from e have "e \<noteq> Chars_Period" by auto
  with scanNumberFraction_any [OF input, of kind "value"] Nil run r1 q' show ?thesis
    by auto
next
  case (Cons c r2)
  with frac have c: "c = Chars_Period" and r2: "list_all isRunChar r2" "\<not> leadingSeparator r2"
    "\<not> doubledSeparator r2" "\<not> trailingSeparator r2"
    by (simp_all add: fractionPart_def misplacedSeparator_def)
  from r1(1) have run1: "digitRun (r1 @ Chars_Period # r2 @ e # rest) = r1"
    "afterRun (r1 @ Chars_Period # r2 @ e # rest) = Chars_Period # r2 @ e # rest"
    by (simp_all add: digitRun_append)
  from e r2(1) have run2: "digitRun (r2 @ e # rest) = r2" "afterRun (r2 @ e # rest) = e # rest"
    by (auto simp: digitRun_append)
  from input Cons c have q': "atInput (advance q (length r1 + 1 + length r2)) (e # rest)"
    using atInput_advance [of q "r1 @ Chars_Period # r2" "e # rest"] by simp
  from scanNumberFraction_any [OF input, of kind "value"] Cons c run1 run2 r1 r2 q' show ?thesis
    by auto
qed

lemma scanNumber_mantissa:
  assumes input: "atInput p (m @ e # rest)"
    and m: "mantissa kind m"
    and e: "e = Chars_LowerE \<or> e = 69"
  shows "\<exists>q k v. atInput q (e # rest) \<and>
     scanNumber u p context kind = scanNumberSuffix u q context k v (Some e)"
proof (cases "NumberKind_Float \<in> kind")
  case True
  with m obtain d r where md: "m = d # r" and d: "isDigit d" and r: "list_all isRunChar r"
    "\<not> doubledSeparator r" "\<not> trailingSeparator r"
    by (auto simp: mantissa_def floatDigits_def split: list.splits)
  from d have du: "d \<noteq> Chars_Underscore" "isRunChar d"
    by (auto simp: isDigit_def isRunChar_def)
  with r md have ok: "list_all isRunChar m" "\<not> doubledSeparator m" "\<not> trailingSeparator m"
    by (simp_all add: doubledSeparator_digit trailingSeparator_digit)
  from e ok(1) have run: "digitRun (m @ e # rest) = m" "afterRun (m @ e # rest) = e # rest"
    by (auto simp: digitRun_append)
  from input have q: "atInput (advance p (length m)) (e # rest)"
    using atInput_advance [of p m "e # rest"] by simp
  then have char: "charCodeAt (source p) (index p + length m) = Some e"
    by (simp add: atInput_def)
  from input have first: "nextCP p = headCP (m @ e # rest)"
    by (simp add: atInput_def)
  from e have "Some e \<noteq> Some Chars_LowerN" by auto
  with True q show ?thesis
    by (intro exI [of _ "advance p (length m)"] exI [of _ kind] exI [of _ "Str (Chars_Period # digitsOf m)"])
       (simp add: scanNumber_def first scanDecimalDigitsOrSeparator_any [OF input] run ok char)
next
  case False
  define ip where "ip = takeWhile (\<lambda>c. c \<noteq> Chars_Period) m"
  define frac where "frac = dropWhile (\<lambda>c. c \<noteq> Chars_Period) m"
  have split: "m = ip @ frac"
    by (simp add: ip_def frac_def)
  from m False have kind: "NumberKind_Decimal \<in> kind" and ip: "decimalInteger ip"
    and frac: "fractionPart frac"
    by (simp_all add: mantissa_def ip_def frac_def)
  have decimal: "kind \<inter> DecimalNumberKind \<noteq> {}"
    using kind by (auto simp: DecimalNumberKind_def)
  from ip obtain d r where ipd: "ip = d # r"
    by (cases ip) (auto simp: decimalInteger_def)
  from input have first: "nextCP p = Some d"
    by (simp add: atInput_def split ipd)
  have next_char: "headCP (frac @ e # rest) = Some Chars_Period \<or> headCP (frac @ e # rest) = Some e"
    using frac by (cases frac) (auto simp: fractionPart_def)
  show ?thesis
  proof (cases "d = Chars_Zero")
    case True
    with ip ipd have r: "r = []"
      by (simp add: decimalInteger_def)
    with input split ipd True have input0: "atInput p (Chars_Zero # frac @ e # rest)"
      by simp
    note step = nextCP'_atInput [OF input0] and input1 = atInput_step [OF input0]
    from next_char e have plain:
      "or32 (headCP (frac @ e # rest)) \<noteq> Chars_LowerX"
      "or32 (headCP (frac @ e # rest)) \<noteq> Chars_LowerO"
      "or32 (headCP (frac @ e # rest)) \<noteq> Chars_LowerB"
      "CharFlags_Octal \<notin> CharTypes (headCP (frac @ e # rest))"
      "CharFlags_ImplicitOctalDigits \<notin> CharTypes (headCP (frac @ e # rest))"
      "headCP (frac @ e # rest) \<noteq> Some Chars_Underscore"
      by (auto simp: or32_LowerX or32_LowerO or32_LowerB Octal_iff ImplicitOctalDigits_iff)
    from scanNumberFraction_mantissa [of "advance p (Suc 0)" "[]" frac e rest kind "Fin 0"] input1 frac e
    obtain q' k v where q': "atInput q' (e # rest)"
      and fr: "scanNumberFraction (advance p (Suc 0)) kind (Fin 0) (headCP (frac @ e # rest)) = Inr (q', k, v, Some e)"
      by auto
    from False True q' show ?thesis
      by (intro exI [of _ q'] exI [of _ k] exI [of _ v])
         (simp add: scanNumber_def first scanNumberZero_def step plain scanNumberTail_def scanNumberDecimal_def decimal fr)
  next
    case nonzero: False
    with ip ipd have r: "list_all isRunChar r" "\<not> doubledSeparator r" "\<not> trailingSeparator r"
      and d: "49 \<le> d" "d \<le> 57"
      by (simp_all add: decimalInteger_def)
    from d have du: "d \<noteq> Chars_Underscore" "isRunChar d"
      by (auto simp: isRunChar_def isDigit_def)
    with r ipd have ok: "list_all isRunChar ip" "\<not> doubledSeparator ip" "\<not> trailingSeparator ip"
      by (simp_all add: doubledSeparator_digit trailingSeparator_digit)
    from input split have input': "atInput p (ip @ frac @ e # rest)"
      by simp
    have hd: "headCP (ip @ frac @ e # rest) = Some d"
      by (simp add: ipd)
    from scanNumberFraction_mantissa [OF input' ok frac e, of kind "Fin 0"] hd
    obtain q' k v where q': "atInput q' (e # rest)"
      and fr: "scanNumberFraction p kind (Fin 0) (Some d) = Inr (q', k, v, Some e)"
      by auto
    from False nonzero q' show ?thesis
      by (intro exI [of _ q'] exI [of _ k] exI [of _ v])
         (simp add: scanNumber_def first scanNumberTail_def scanNumberDecimal_def decimal fr)
  qed
qed

lemma radixRun_stop:
  "CharTypes (headCP (dropWhile (\<lambda>c. flag \<in> CharTypes (Some c) \<or> c = Chars_Underscore) xs))
     \<inter> {flag, CharFlags_Underscore} = {}"
proof (cases "dropWhile (\<lambda>c. flag \<in> CharTypes (Some c) \<or> c = Chars_Underscore) xs")
  case Nil
  show ?thesis unfolding Nil by simp
next
  case (Cons c cs)
  then have "\<not> (flag \<in> CharTypes (Some c) \<or> c = Chars_Underscore)"
    using hd_dropWhile [of "\<lambda>c. flag \<in> CharTypes (Some c) \<or> c = Chars_Underscore" xs] by auto
  then show ?thesis
    unfolding Cons by (simp add: Underscore_iff)
qed

lemma radix_separator_rejected:
  assumes input: "atInput p (Chars_Zero # x # xs)"
    and prefix: "radixOfPrefix x = Some (flag, radix, k)"
    and kind: "NumberKind_Float \<notin> kind"
    and bad: "misplacedSeparator (radixRun flag xs)"
  shows "isl (scanNumber u p context kind)"
proof -
  let ?P = "\<lambda>c. flag \<in> CharTypes (Some c) \<or> c = Chars_Underscore"
  from input have input': "atInput p (Chars_Zero # x # radixRun flag xs @ dropWhile ?P xs)"
    by (simp add: radixRun_def)
  have run: "list_all ?P (radixRun flag xs)"
    unfolding radixRun_def by (induction xs) auto
  from input have char: "nextCP p = Some Chars_Zero"
    by (simp add: atInput_def)
  from scanNumberZero_radix [OF input' prefix run radixRun_stop, of "context" kind 0] bad
  have "isl (scanNumberZero p context kind (Fin 0) 0 0 0)"
    by (auto simp: misplacedSeparator_def)
  with kind char show ?thesis
    by (auto simp: scanNumber_def isl_def)
qed

lemma afterZero_separator_rejected:
  assumes input: "atInput p (Chars_Zero # Chars_Underscore # xs)"
    and kind: "NumberKind_Float \<notin> kind"
  shows "isl (scanNumber u p context kind)"
proof -
  from input have char: "nextCP p = Some Chars_Zero"
    by (simp add: atInput_def)
  have "or32 (Some Chars_Underscore) = 127"
    by (simp add: or32_def)
  then have "scanNumberZero p context kind (Fin 0) 0 0 0 = Inl Unexpected"
    by (simp add: scanNumberZero_def nextCP'_atInput [OF input] Octal_iff ImplicitOctalDigits_iff)
  with kind char show ?thesis
    by (simp add: scanNumber_def)
qed

lemma misplaced_digit:
  "d \<noteq> Chars_Underscore \<Longrightarrow>
     misplacedSeparator (d # r) = (doubledSeparator (d # r) \<or> trailingSeparator (d # r))"
  by (simp add: misplacedSeparator_def)

lemma integer_separator_rejected:
  assumes input: "atInput p (d # xs)"
    and d: "49 \<le> d" "d \<le> 57"
    and kind: "NumberKind_Decimal \<in> kind" "NumberKind_Float \<notin> kind"
    and bad: "misplacedSeparator (d # digitRun xs)"
  shows "isl (scanNumber u p context kind)"
proof -
  from input have char: "nextCP p = Some d"
    by (simp add: atInput_def)
  from d have du: "d \<noteq> Chars_Underscore" "d \<noteq> Chars_Zero" "isRunChar d"
    by (auto simp: isRunChar_def isDigit_def)
  from kind have decimal: "kind \<inter> DecimalNumberKind \<noteq> {}"
    by (auto simp: DecimalNumberKind_def)
  from bad du have "doubledSeparator (digitRun (d # xs)) \<or> trailingSeparator (digitRun (d # xs))"
    by (simp add: misplaced_digit digitRun_Cons)
  with scanNumberFraction_any [OF input, of kind "Fin 0"]
  have "isl (scanNumberFraction p kind (Fin 0) (Some d))"
    by auto
  with kind du char decimal show ?thesis
    by (auto simp: scanNumber_def scanNumberTail_def scanNumberDecimal_def isl_def)
qed

lemma float_separator_rejected:
  assumes input: "atInput p (d # xs)"
    and d: "isDigit d"
    and kind: "NumberKind_Float \<in> kind"
    and bad: "misplacedSeparator (d # digitRun xs)"
  shows "isl (scanNumber u p context kind)"
proof -
  from input have char: "nextCP p = Some d"
    by (simp add: atInput_def)
  from d have du: "d \<noteq> Chars_Underscore" "isRunChar d"
    by (auto simp: isRunChar_def isDigit_def)
  from bad du have "doubledSeparator (digitRun (d # xs)) \<or> trailingSeparator (digitRun (d # xs))"
    by (simp add: misplaced_digit digitRun_Cons)
  with scanDecimalDigitsOrSeparator_any [OF input]
  have "isl (scanDecimalDigitsOrSeparator p (Some d))"
    by auto
  with kind char show ?thesis
    by (auto simp: scanNumber_def isl_def)
qed

lemma exponent_separator_rejected:
  assumes input: "atInput p (m @ e # xs)"
    and m: "mantissa kind m"
    and e: "e = Chars_LowerE \<or> e = 69"
    and bad: "misplacedSeparator (digitRun (afterSign xs))"
  shows "isl (scanNumber u p context kind)"
proof -
  from scanNumber_mantissa [OF input m e] obtain q k v where q: "atInput q (e # xs)"
    and suffix: "scanNumber u p context kind = scanNumberSuffix u q context k v (Some e)"
    by blast
  from scanNumberSuffix_exponent(2) [OF q e bad] suffix show ?thesis
    by simp
qed

lemma scanNumber_integer:
  assumes input: "atInput p (ip @ c # rest)"
    and ip: "decimalInteger ip"
    and c: "c = Chars_Period \<or> c = Chars_LowerE \<or> c = 69"
    and kind: "NumberKind_Decimal \<in> kind" "NumberKind_Float \<notin> kind"
  shows "\<exists>q r. atInput q (r @ c # rest) \<and> list_all isRunChar r \<and>
     \<not> doubledSeparator r \<and> \<not> trailingSeparator r \<and>
     scanNumber u p context kind =
       (case scanNumberFraction q kind (Fin 0) (headCP (r @ c # rest)) of
          Inl e \<Rightarrow> Inl e
        | Inr (q', k', v', c') \<Rightarrow> scanNumberSuffix u q' context k' v' c')"
proof -
  have decimal: "kind \<inter> DecimalNumberKind \<noteq> {}"
    using kind by (auto simp: DecimalNumberKind_def)
  from ip obtain d r where ipd: "ip = d # r"
    by (cases ip) (auto simp: decimalInteger_def)
  from input have first: "nextCP p = Some d"
    by (simp add: atInput_def ipd)
  show ?thesis
  proof (cases "d = Chars_Zero")
    case True
    with ip ipd have r: "r = []"
      by (simp add: decimalInteger_def)
    with input ipd True have input0: "atInput p (Chars_Zero # c # rest)"
      by simp
    note step = nextCP'_atInput [OF input0] and input1 = atInput_step [OF input0]
    from c have plain:
      "or32 (Some c) \<noteq> Chars_LowerX" "or32 (Some c) \<noteq> Chars_LowerO" "or32 (Some c) \<noteq> Chars_LowerB"
      "CharFlags_Octal \<notin> CharTypes (Some c)" "CharFlags_ImplicitOctalDigits \<notin> CharTypes (Some c)"
      "c \<noteq> Chars_Underscore"
      by (auto simp: or32_LowerX or32_LowerO or32_LowerB Octal_iff ImplicitOctalDigits_iff)
    from kind True input1 show ?thesis
      by (intro exI [of _ "advance p (Suc 0)"] exI [of _ "[]"])
         (simp add: scanNumber_def first scanNumberZero_def step plain scanNumberTail_def scanNumberDecimal_def decimal
            split: sum.splits flow.splits)
  next
    case nonzero: False
    with ip ipd have r: "list_all isRunChar r" "\<not> doubledSeparator r" "\<not> trailingSeparator r"
      and d: "49 \<le> d" "d \<le> 57"
      by (simp_all add: decimalInteger_def)
    from d have du: "d \<noteq> Chars_Underscore" "isRunChar d"
      by (auto simp: isRunChar_def isDigit_def)
    with r ipd have ok: "list_all isRunChar ip" "\<not> doubledSeparator ip" "\<not> trailingSeparator ip"
      by (simp_all add: doubledSeparator_digit trailingSeparator_digit)
    have hd: "headCP (ip @ c # rest) = Some d"
      by (simp add: ipd)
    from kind nonzero input ok show ?thesis
      by (intro exI [of _ p] exI [of _ ip])
         (simp add: scanNumber_def first scanNumberTail_def scanNumberDecimal_def decimal hd
            split: sum.splits flow.splits)
  qed
qed

lemma fraction_separator_rejected:
  assumes input: "atInput p (ip @ Chars_Period # xs)"
    and ip: "decimalInteger ip"
    and kind: "NumberKind_Decimal \<in> kind" "NumberKind_Float \<notin> kind"
    and bad: "misplacedSeparator (digitRun xs)"
  shows "isl (scanNumber u p context kind)"
proof -
  from scanNumber_integer [OF input ip _ kind, of u "context"]
  obtain q r where q: "atInput q (r @ Chars_Period # xs)" and r: "list_all isRunChar r"
    and scan: "scanNumber u p context kind =
       (case scanNumberFraction q kind (Fin 0) (headCP (r @ Chars_Period # xs)) of
          Inl e \<Rightarrow> Inl e
        | Inr (q', k', v', c') \<Rightarrow> scanNumberSuffix u q' context k' v' c')"
    by auto
  from r have run: "digitRun (r @ Chars_Period # xs) = r" "afterRun (r @ Chars_Period # xs) = Chars_Period # xs"
    by (simp_all add: digitRun_append)
  from scanNumberFraction_any [OF q, of kind "Fin 0"] run bad
  have "isl (scanNumberFraction q kind (Fin 0) (headCP (r @ Chars_Period # xs)))"
    by (auto simp: misplacedSeparator_def)
  with scan show ?thesis
    by (auto simp: isl_def)
qed

lemma zeroDecimal_separator_rejected:
  assumes input: "atInput p (Chars_Zero # d # xs)"
    and d: "d = 56 \<or> d = 57"
    and kind: "NumberKind_Float \<notin> kind"
    and bad: "misplacedSeparator (d # digitRun xs)"
  shows "isl (scanNumber u p context kind)"
proof -
  from input have char: "nextCP p = Some Chars_Zero"
    by (simp add: atInput_def)
  note step = nextCP'_atInput [OF input] and input1 = atInput_step [OF input]
  from d have du: "d \<noteq> Chars_Underscore" "isRunChar d"
    and plain: "or32 (Some d) \<noteq> Chars_LowerX" "or32 (Some d) \<noteq> Chars_LowerO"
      "or32 (Some d) \<noteq> Chars_LowerB" "CharFlags_Octal \<notin> CharTypes (Some d)"
      "CharFlags_ImplicitOctalDigits \<in> CharTypes (Some d)"
    by (auto simp: isRunChar_def isDigit_def or32_LowerX or32_LowerO or32_LowerB Octal_iff
        ImplicitOctalDigits_iff)
  from input1 have input2: "atInput ((advance p (Suc 0))\<lparr>flags := {Flags_Octals}\<rparr>) (d # xs)"
    by simp
  from bad du have "doubledSeparator (digitRun (d # xs)) \<or> trailingSeparator (digitRun (d # xs))"
    by (simp add: misplaced_digit digitRun_Cons)
  with scanNumberFraction_any [OF input2, of "{NumberKind_DecimalWithLeadingZero}" "Fin 0"]
  have "isl (scanNumberFraction ((advance p (Suc 0))\<lparr>flags := {Flags_Octals}\<rparr>)
      {NumberKind_DecimalWithLeadingZero} (Fin 0) (Some d))"
    by auto
  with kind char show ?thesis
    by (auto simp: scanNumber_def scanNumberZero_def step plain scanNumberTail_def scanNumberDecimal_def
        DecimalNumberKind_def isl_def)
qed

lemma legacyOctal_separator_rejected:
  assumes input: "atInput p (Chars_Zero # os @ Chars_Underscore # xs)"
    and os: "os \<noteq> []" "list_all (\<lambda>c. 48 \<le> c \<and> c \<le> 55) os"
    and kind: "NumberKind_Float \<notin> kind"
  shows "isl (scanNumber u p context kind)"
proof -
  from os(1) obtain d ds where osd: "os = d # ds"
    by (cases os) auto
  with os(2) have d: "CharFlags_Octal \<in> CharTypes (Some d)" "CharFlags_Decimal \<in> CharTypes (Some d)"
    by (simp_all add: Octal_iff Decimal_iff)
  from input have char: "nextCP p = Some Chars_Zero"
    by (simp add: atInput_def)
  from input have step: "nextCP' p = (Some d, advance p (Suc 0))"
    and input1: "atInput (advance p (Suc 0)) (os @ Chars_Underscore # xs)"
    using nextCP'_atInput [OF input] atInput_step [OF input] by (simp_all add: osd)
  have stop: "CharFlags_Octal \<notin> CharTypes (headCP (Chars_Underscore # xs))"
    "CharFlags_ImplicitOctalDigits \<notin> CharTypes (headCP (Chars_Underscore # xs))"
    by (simp_all add: Octal_iff ImplicitOctalDigits_iff)
  have hd: "headCP (os @ Chars_Underscore # xs) = Some d"
    by (simp add: osd)
  note loop = implicitOctalLoop_run [OF input1 os(2) stop(1), of "Fin 0" "{NumberKind_ImplicitOctal}" 0,
      unfolded hd]
  have start: "isIdentifierStart u (Some Chars_Underscore)" "or32 (Some Chars_Underscore) = 127"
    by (simp_all add: isIdentifierStart_ascii IdentifierStart_iff or32_def)
  have zero: "scanNumberZero p context kind (Fin 0) 0 0 0 =
     (if Context_Strict \<in> context then Inl StrictOctalEscape
      else Inr (advance p (Suc (length os)), Some Chars_Underscore, {NumberKind_ImplicitOctal},
                accumulate 8 minusZero (Fin 0) os, 0, 0))"
    using stop(2) by (simp add: scanNumberZero_def step d octal_not_prefix [OF d(2)] loop)
  from kind show ?thesis
    by (simp add: scanNumber_def char zero scanNumberTail_def scanNumberDecimal_def DecimalNumberKind_def
        scanNumberSuffix_def scanNumberExponent_def scanNumberToken_def start)
qed

lemma atInput_create: "atInput (create src) src"
  by (cases src) (simp_all add: atInput_def create_def charCodeAt_def)

lemma outcome_Inl [simp]: "outcome (Inl e) = Inl e"
  by (simp add: outcome_def)

lemma digitRun_stop:
  assumes "list_all isRunChar r"
    and "CharTypes (headCP rest) \<inter> {CharFlags_Decimal, CharFlags_Underscore} = {}"
  shows "digitRun (r @ rest) = r" "afterRun (r @ rest) = rest"
proof -
  have "digitRun rest = [] \<and> afterRun rest = rest"
    using assms(2) by (cases rest) (auto simp: digitRun_Cons isRunChar_flags)
  with assms(1) show "digitRun (r @ rest) = r" "afterRun (r @ rest) = rest"
    by (induction r) (simp_all add: digitRun_Cons)
qed

lemma digits_no_separator:
  assumes "list_all isDigit r"
  shows "list_all isRunChar r" "\<not> doubledSeparator r" "\<not> trailingSeparator r" "digitsOf r = r"
  using assms
  by (induction r)
     (auto simp: isRunChar_def isDigit_def doubledSeparator_Cons trailingSeparator_Cons
        leadingSeparator_def headCP_def split: list.splits)

lemma substring_input:
  assumes "drop i s = lit @ rest"
  shows "substring s i (i + length lit) = lit"
proof -
  have "take (length lit) (drop i s) = lit"
    by (simp add: assms)
  then show ?thesis
    by (simp add: substring_def slice_def min_def max_def)
qed

lemma decimalValue_digits:
  assumes "list_all isDigit ds"
  shows "parseFloat (Chars_Zero # ds) = Num (roundDouble (decimalValue ds))"
proof -
  define xs where "xs = Chars_Zero # ds"
  from assms have "list_all isDigit xs"
    by (simp add: xs_def isDigit_def)
  then have all: "takeWhile isDigit xs = xs" "dropWhile isDigit xs = []"
    by (simp_all add: list_all_iff)
  have "xs \<noteq> []" "decimalValue xs = decimalValue ds"
    by (simp_all add: xs_def)
  then have "parseFloat xs = Num (roundDouble (decimalValue ds))"
    by (simp add: parseFloat_def Let_def all)
  then show ?thesis
    by (simp add: xs_def)
qed

lemma scanNumberZero_leading_zero:
  assumes input: "atInput p (Chars_Zero # ds @ rest)"
    and digits: "list_all isDigit ds"
    and nonoctal: "56 \<in> set ds \<or> 57 \<in> set ds"
  shows "\<exists>q v r. scanNumberZero p context kind (Fin 0) 0 0 0 =
       (if Context_Strict \<in> context then Inl StrictOctalEscape
        else Inr (q, headCP (r @ rest), {NumberKind_DecimalWithLeadingZero}, v, 0, 0)) \<and>
     atInput q (r @ rest) \<and> list_all isDigit r \<and> source q = source p \<and>
     tokenIndex q = tokenIndex p \<and> index q + length r = index p + length (Chars_Zero # ds)"
proof -
  define os where "os = takeWhile (\<lambda>c. c \<le> 55) ds"
  define r where "r = dropWhile (\<lambda>c. c \<le> 55) ds"
  have split: "ds = os @ r"
    by (simp add: os_def r_def)
  from nonoctal have "\<exists>x\<in>set ds. \<not> x \<le> 55"
    by force
  then have "r \<noteq> []"
    by (simp add: r_def dropWhile_eq_Nil_conv)
  then obtain e r' where re: "r = e # r'"
    by (cases r) auto
  then have "\<not> e \<le> 55"
    using hd_dropWhile [of "\<lambda>c. c \<le> 55" ds] by (simp add: r_def)
  moreover from digits split re have rd: "list_all isDigit r" and "isDigit e"
    by simp_all
  ultimately have e: "e = 56 \<or> e = 57"
    by (auto simp: isDigit_def)
  then have eflags: "CharFlags_Octal \<notin> CharTypes (Some e)"
    "CharFlags_ImplicitOctalDigits \<in> CharTypes (Some e)"
    "or32 (Some e) \<noteq> Chars_LowerX" "or32 (Some e) \<noteq> Chars_LowerO" "or32 (Some e) \<noteq> Chars_LowerB"
    by (auto simp: Octal_iff ImplicitOctalDigits_iff or32_LowerX or32_LowerO or32_LowerB)
  have octal: "list_all (\<lambda>c. 48 \<le> c \<and> c \<le> 55) os"
  proof -
    have "list_all (\<lambda>c. c \<le> 55) os"
      unfolding os_def list_all_iff by (auto dest: set_takeWhileD)
    moreover from digits split have "list_all isDigit os" by simp
    ultimately show ?thesis
      by (auto simp: list_all_iff isDigit_def)
  qed
  from input split have input0: "atInput p (Chars_Zero # os @ r @ rest)"
    by simp
  note step = nextCP'_atInput [OF input0] and input1 = atInput_step [OF input0]
  show ?thesis
  proof (cases os)
    case Nil
    with step re have step': "nextCP' p = (Some e, advance p (Suc 0))"
      by simp
    from input1 Nil have q: "atInput ((advance p (Suc 0))\<lparr>flags := {Flags_Octals}\<rparr>) (r @ rest)"
      by simp
    from q rd split Nil re show ?thesis
      by (intro exI [of _ "(advance p (Suc 0))\<lparr>flags := {Flags_Octals}\<rparr>"] exI [of _ "Fin 0"]
            exI [of _ r])
         (simp add: scanNumberZero_def step' eflags)
  next
    case (Cons d os')
    with octal have d: "CharFlags_Octal \<in> CharTypes (Some d)" "CharFlags_Decimal \<in> CharTypes (Some d)"
      by (simp_all add: Octal_iff Decimal_iff)
    from step Cons have step': "nextCP' p = (Some d, advance p (Suc 0))"
      by simp
    have stop: "CharFlags_Octal \<notin> CharTypes (headCP (r @ rest))"
      using eflags(1) by (simp add: re)
    have hd: "headCP (os @ r @ rest) = Some d" "headCP (r @ rest) = Some e"
      by (simp_all add: Cons re)
    note loop = implicitOctalLoop_run [OF input1 octal stop, of "Fin 0" "{NumberKind_ImplicitOctal}" 0,
        unfolded hd]
    from atInput_advance [of "advance p (Suc 0)" os "r @ rest"] input1
    have q: "atInput (advance p (Suc (length os))) (r @ rest)"
      by simp
    from q rd split show ?thesis
      by (intro exI [of _ "advance p (Suc (length os))"]
            exI [of _ "accumulate 8 minusZero (Fin 0) os"] exI [of _ r])
         (simp add: scanNumberZero_def step' d octal_not_prefix [OF d(2)] loop eflags hd)
  qed
qed

lemma next_is_separator:
  assumes "CharTypes (headCP rest) \<inter> {CharFlags_Decimal, CharFlags_Underscore} = {}"
  shows "headCP (r @ rest) = Some Chars_Underscore \<longleftrightarrow> leadingSeparator r"
proof (cases r)
  case Nil
  with assms show ?thesis
    by (cases rest) (auto simp: Underscore_iff)
next
  case (Cons c r')
  then show ?thesis by simp
qed

lemma decimalFastLoop_run:
  assumes "atInput p (r @ rest)"
    and "list_all isRunChar r"
    and "CharTypes (headCP rest) \<inter> {CharFlags_Decimal, CharFlags_Underscore} = {}"
    and "int (length (digitsOf r)) \<le> digit"
  shows "decimalFastLoop p (headCP (r @ rest)) v digit a =
     (if doubledSeparator r then Inl ContinuousNumericSeparator
      else Inr (advance p (length r), headCP rest, accumulate 10 minusZero v (digitsOf r),
                digit - int (length (digitsOf r)),
                if r = [] then a else if trailingSeparator r then 1 else 0))"
  using assms
proof (induction r arbitrary: p v digit a)
  case Nil
  then show ?case
    by (subst decimalFastLoop.simps) (simp add: advance_0)
next
  case (Cons c r)
  from Cons.prems(1) have step: "nextCP' p = (headCP (r @ rest), advance p (Suc 0))"
    and next_input: "atInput (advance p (Suc 0)) (r @ rest)"
    by (simp_all add: nextCP'_atInput atInput_step)
  from Cons.prems(2) have c: "isRunChar c" and run: "list_all isRunChar r"
    by simp_all
  from Cons.prems(4) have digit: "0 \<le> digit"
    by simp
  from c have continues: "CharTypes (Some c) \<inter> {CharFlags_Decimal, CharFlags_Underscore} \<noteq> {}"
    by (simp add: isRunChar_flags)
  note lead = next_is_separator [OF Cons.prems(3), of r]
  show ?case
  proof (cases "c = Chars_Underscore")
    case True
    with Cons.prems(4) have "int (length (digitsOf r)) \<le> digit"
      by simp
    note IH = Cons.IH [OF next_input run Cons.prems(3) this, of v "Suc 0"]
    show ?thesis
      by (simp only: append_Cons headCP_simps, subst decimalFastLoop.simps,
          subst if_P [OF conjI [OF digit continues]])
         (simp add: True step lead IH doubledSeparator_Cons trailingSeparator_Cons)
  next
    case False
    with Cons.prems(4) have "int (length (digitsOf r)) \<le> digit - 1"
      by simp
    note IH = Cons.IH [OF next_input run Cons.prems(3) this,
        of "jsAdd (jsMul v 10) (minusZero (Some c))" 0]
    show ?thesis
      by (simp only: append_Cons headCP_simps, subst decimalFastLoop.simps,
          subst if_P [OF conjI [OF digit continues]])
         (simp add: False step IH doubledSeparator_Cons trailingSeparator_Cons Let_def)
  qed
qed

lemma decimalFastLoop_stops:
  assumes "atInput p (r @ rest)"
    and "list_all isRunChar r"
    and "digit < int (length (digitsOf r))"
  shows "case decimalFastLoop p (headCP (r @ rest)) v digit a of
      Inl e \<Rightarrow> True
    | Inr (p', c', v', digit', a') \<Rightarrow> digit' < 0"
  using assms
proof (induction r arbitrary: p v digit a)
  case Nil
  then show ?case
    by (subst decimalFastLoop.simps) simp
next
  case (Cons c r)
  from Cons.prems(1) have step: "nextCP' p = (headCP (r @ rest), advance p (Suc 0))"
    and next_input: "atInput (advance p (Suc 0)) (r @ rest)"
    by (simp_all add: nextCP'_atInput atInput_step)
  from Cons.prems(2) have c: "isRunChar c" and run: "list_all isRunChar r"
    by simp_all
  from c have continues: "CharTypes (Some c) \<inter> {CharFlags_Decimal, CharFlags_Underscore} \<noteq> {}"
    by (simp add: isRunChar_flags)
  show ?case
  proof (cases "0 \<le> digit")
    case False
    then show ?thesis
      by (subst decimalFastLoop.simps) simp
  next
    case digit: True
    show ?thesis
    proof (cases "c = Chars_Underscore")
      case True
      with Cons.prems(3) have "digit < int (length (digitsOf r))"
        by simp
      note IH = Cons.IH [OF next_input run this, of v "Suc 0"]
      show ?thesis
        by (simp only: append_Cons headCP_simps, subst decimalFastLoop.simps,
            subst if_P [OF conjI [OF digit continues]])
           (use IH in \<open>simp add: True step split: sum.splits\<close>)
    next
      case False
      with Cons.prems(3) have "digit - 1 < int (length (digitsOf r))"
        by simp
      note IH = Cons.IH [OF next_input run this, of "jsAdd (jsMul v 10) (minusZero (Some c))" 0]
      show ?thesis
        by (simp only: append_Cons headCP_simps, subst decimalFastLoop.simps,
            subst if_P [OF conjI [OF digit continues]])
           (use IH in \<open>simp add: False step Let_def split: sum.splits\<close>)
    qed
  qed
qed

lemma digitsOf_digits: "list_all isRunChar r \<Longrightarrow> list_all isDigit (digitsOf r)"
  by (induction r) (auto simp: isRunChar_def)

lemma decimalValue_bound: "list_all isDigit ds \<Longrightarrow> decimalValue ds < 10 ^ length ds"
proof (induction ds)
  case Nil
  then show ?case by simp
next
  case (Cons c ds)
  then have "c - 48 \<le> 9" and "decimalValue ds < 10 ^ length ds"
    by (auto simp: isDigit_def)
  then have "(c - 48) * 10 ^ length ds + decimalValue ds < 9 * 10 ^ length ds + 10 ^ length ds"
    by (intro add_le_less_mono mult_le_mono1)
  then show ?case by simp
qed

lemma radixValue_decimal: "list_all isDigit ds \<Longrightarrow> radixValue 10 ds = decimalValue ds"
  by (induction ds) (auto simp: isDigit_def digitValue_def)

lemma accumulate_decimal:
  assumes "list_all isDigit ds" and "length ds \<le> 9"
  shows "accumulate 10 minusZero (Fin 0) ds = Fin (decimalValue ds)"
    and "roundDouble (decimalValue ds) = Fin (decimalValue ds)"
proof -
  from assms(2) have "(10::nat) ^ length ds \<le> 10 ^ 9"
    by (intro power_increasing) simp_all
  with decimalValue_bound [OF assms(1)] have small: "decimalValue ds < 2 ^ 53"
    by simp
  then show "roundDouble (decimalValue ds) = Fin (decimalValue ds)"
    by (rule roundDouble_exact)
  from assms(1) have "list_all (\<lambda>c. minusZero (Some c) = digitValue c) ds"
    by (auto simp: list_all_iff isDigit_def minusZero_def digitValue_def)
  from accumulate_exact [OF _ this, of 10 0] small radixValue_decimal [OF assms(1)]
  show "accumulate 10 minusZero (Fin 0) ds = Fin (decimalValue ds)"
    by simp
qed

lemma digitRun_isRunChar: "list_all isRunChar (digitRun xs)"
  unfolding digitRun_def list_all_iff by (auto dest: set_takeWhileD)

lemma tokens_example:
  "scanTokens (str ''if (true) function foo() {}'') =
     Inr [IfKeyword, LeftParen, TrueKeyword, RightParen, FunctionKeyword, Identifier (str ''foo''),
          LeftParen, RightParen, LeftBrace, RightBrace]"
  by (simp add: scanTokens.simps str_def punctuator_def isIdentifierPart_def isDigit_def
      keywordOrIdentifier_def)

section \<open>Radix-prefixed literals\<close>




section \<open>Legacy octal literals\<close>

text \<open>
  C2. For a literal that is a zero followed by octal digits, with a value below
  \<open>2 ^ 53\<close>: in strict mode the scan raises \<^verbatim>\<open>StrictOctalEscape\<close>; outside strict
  mode it returns a \<^verbatim>\<open>NumericLiteral\<close> with the base-8 value of the digits. The
  field \<^verbatim>\<open>flags\<close> of the parser is the same after the scan as before: the branch of
  lines 95 to 107 does not record the legacy octal.
\<close>

theorem legacy_octal_literal:
  assumes input: "atInput p (Chars_Zero # ds @ rest)"
    and nonempty: "ds \<noteq> []"
    and octal: "list_all (\<lambda>c. 48 \<le> c \<and> c \<le> 55) ds"
    and ends: "endsNumeral u rest"
    and exact: "radixValue 8 ds < 2 ^ 53"
    and kind: "NumberKind_Float \<notin> kind"
  shows "flagsOutcome (scanNumber u p context kind) =
     (if Context_Strict \<in> context then Inl StrictOctalEscape
      else Inr (NumericLiteral, Num (Fin (radixValue 8 ds)), flags p))"
proof -
  from nonempty obtain d ds' where ds: "ds = d # ds'"
    by (cases ds) auto
  with octal have d: "CharFlags_Octal \<in> CharTypes (Some d)" "CharFlags_Decimal \<in> CharTypes (Some d)"
    by (simp_all add: Octal_iff Decimal_iff)
  from input have char: "nextCP p = Some Chars_Zero"
    and step: "nextCP' p = (headCP (ds @ rest), advance p (Suc 0))"
    and input1: "atInput (advance p (Suc 0)) (ds @ rest)"
    by (simp_all add: atInput_nextCP nextCP'_atInput atInput_step)
  note stop = endsNumeral_no_digit [OF ends]
  have hd: "headCP (ds @ rest) = Some d"
    by (simp add: ds)
  note loop = implicitOctalLoop_run [OF input1 octal stop(1), of "Fin 0" "{NumberKind_ImplicitOctal}" 0,
      unfolded hd]
  from accumulate_exact [OF _ radixValue_octal [OF octal], of 8 0] exact
  have acc: "accumulate 8 minusZero (Fin 0) ds = Fin (radixValue 8 ds)"
    by simp
  have zero: "scanNumberZero p context kind (Fin 0) 0 0 0 =
     (if Context_Strict \<in> context then Inl StrictOctalEscape
      else Inr (advance p (Suc (length ds)), headCP rest, {NumberKind_ImplicitOctal},
                Fin (radixValue 8 ds), 0, 0))"
    by (simp add: scanNumberZero_def step hd d octal_not_prefix [OF d(2)] loop stop(2) acc)
  show ?thesis
    using kind
    by (simp add: scanNumber_def char zero scanNumberTail_def scanNumberDecimal_def DecimalNumberKind_def
        scanNumberSuffix_end(1) [OF ends] scanNumberToken_end [OF ends] flagsOutcome_def Let_def)
qed

text \<open>The theorem at \<^verbatim>\<open>0755\<close>, outside and inside strict mode.\<close>

theorem legacy_octal_literal_witness:
  "flagsOutcome (scanNumber noUnicodeStarts (create (str ''0755'')) {} {NumberKind_Decimal}) =
     Inr (NumericLiteral, Num (Fin 493), {}) \<and>
   flagsOutcome (scanNumber noUnicodeStarts (create (str ''0755'')) {Context_Strict} {NumberKind_Decimal}) =
     Inl StrictOctalEscape"
  using legacy_octal_literal [of "create (str ''0755'')" "str ''755''" "[]" noUnicodeStarts
      "{NumberKind_Decimal}" "{}"]
    legacy_octal_literal [of "create (str ''0755'')" "str ''755''" "[]" noUnicodeStarts
      "{NumberKind_Decimal}" "{Context_Strict}"]
  by (simp add: atInput_def create_def str_def charCodeAt_def endsNumeral_def digitValue_def)

text \<open>
  The sibling branch of lines 108 to 111, for a zero followed by 8 or 9, does record
  \<^verbatim>\<open>Flags.Octals\<close>.
\<close>

theorem legacy_octal_flag_sibling:
  "flagsOutcome (scanNumber u (create (str ''08'')) {} {NumberKind_Decimal}) =
     Inr (NumericLiteral, Num (Fin 8), {Flags_Octals})"
  by (simp add: flagsOutcome_def scanNumber_defs scanNumber_loops number_defs)

section \<open>The raw text of the token\<close>

text \<open>
  C3 (as amended). After a successful scan of a \<^verbatim>\<open>NumericLiteral\<close> the field
  \<^verbatim>\<open>tokenRaw\<close> holds the source from \<^verbatim>\<open>tokenIndex\<close> to the cursor when the
  context has \<^verbatim>\<open>OptionsRaw\<close>, and is unchanged otherwise; after a successful scan of a
  \<^verbatim>\<open>BigIntLiteral\<close> it holds that slice in every context.
\<close>

theorem tokenRaw_written:
  assumes "scanNumber u p context kind = Inr (token, p')"
  shows "tokenRaw p' =
     (if token = BigIntLiteral \<or> Context_OptionsRaw \<in> context
      then slice (source p) (tokenIndex p) (index p') else tokenRaw p)"
proof (cases "NumberKind_Float \<in> kind")
  case True
  with assms obtain s q where d: "scanDecimalDigitsOrSeparator p (nextCP p) = Inr (s, q)"
    and t: "scanNumberSuffix u q context kind (Str (Chars_Period # s)) (nextCP q) = Inr (token, p')"
    by (auto simp: scanNumber_def Let_def split: sum.splits if_splits)
  from sameToken_scanDecimalDigitsOrSeparator [OF d] tokenRaw_scanNumberSuffix [OF t]
  show ?thesis
    by (simp add: sameToken_def)
next
  case False
  define z where "z = (if nextCP p = Some Chars_Zero
      then scanNumberZero p context kind (Fin 0) 0 0 0
      else Inr (p, nextCP p, kind, Fin 0, 0, 0))"
  from assms False obtain q c k v s a where z: "z = Inr (q, c, k, v, s, a)"
    by (auto simp: scanNumber_def Let_def z_def split: sum.splits)
  then have q: "sameToken p q" and s: "s = 0"
    using sameToken_scanNumberZero [of p "context" kind "Fin 0" 0 0 0 q c k v s a]
    by (auto simp: z_def split: if_splits)
  from assms False z obtain r where d: "scanNumberDecimal u q context k s v c 9 a = Inr r"
    by (auto simp: scanNumber_def scanNumberTail_def Let_def z_def [symmetric] split: sum.splits)
  with s sameToken_scanNumberDecimal [of u q "context" k v c 9 a r]
  obtain q' k' v' c' where r: "r = Continue (q', k', v', c')" and q': "sameToken q q'"
    by auto
  from assms False z d r have t: "scanNumberSuffix u q' context k' v' c' = Inr (token, p')"
    by (simp add: scanNumber_def scanNumberTail_def Let_def z_def [symmetric])
  from tokenRaw_scanNumberSuffix [OF t] q q' show ?thesis
    by (simp add: sameToken_def)
qed

text \<open>The theorem at \<^verbatim>\<open>3n\<close> and at \<^verbatim>\<open>30\<close>, without and with \<^verbatim>\<open>OptionsRaw\<close>.\<close>

theorem tokenRaw_written_witness:
  "rawOutcome (scanNumber noUnicodeStarts (create (str ''3n'')) {} {NumberKind_Decimal})
     = Inr (BigIntLiteral, str ''3n'') \<and>
   rawOutcome (scanNumber noUnicodeStarts (create (str ''30'')) {} {NumberKind_Decimal})
     = Inr (NumericLiteral, []) \<and>
   rawOutcome (scanNumber noUnicodeStarts (create (str ''30'')) {Context_OptionsRaw} {NumberKind_Decimal})
     = Inr (NumericLiteral, str ''30'')"
proof -
  define r1 where "r1 = scanNumber noUnicodeStarts (create (str ''3n'')) {} {NumberKind_Decimal}"
  define r2 where "r2 = scanNumber noUnicodeStarts (create (str ''30'')) {} {NumberKind_Decimal}"
  define r3 where "r3 = scanNumber noUnicodeStarts (create (str ''30'')) {Context_OptionsRaw} {NumberKind_Decimal}"
  have e1: "r1 = Inr (BigIntLiteral, snd (projr r1))" and i1: "index (snd (projr r1)) = 2"
    unfolding r1_def by (simp_all add: scanNumber_defs scanNumber_loops number_defs)
  have e2: "r2 = Inr (NumericLiteral, snd (projr r2))" and i2: "index (snd (projr r2)) = 2"
    unfolding r2_def by (simp_all add: scanNumber_defs scanNumber_loops number_defs)
  have e3: "r3 = Inr (NumericLiteral, snd (projr r3))" and i3: "index (snd (projr r3)) = 2"
    unfolding r3_def by (simp_all add: scanNumber_defs scanNumber_loops number_defs)
  from tokenRaw_written [OF e1 [unfolded r1_def]] tokenRaw_written [OF e2 [unfolded r2_def]]
    tokenRaw_written [OF e3 [unfolded r3_def]] i1 i2 i3 e1 e2 e3
  show ?thesis
    unfolding r1_def r2_def r3_def rawOutcome_def
    by (auto simp: create_def str_def slice_def split: sum.splits)
qed

text \<open>
  Without \<^verbatim>\<open>OptionsRaw\<close> the scan of \<^verbatim>\<open>3n\<close> replaces the empty
  \<^verbatim>\<open>tokenRaw\<close> by the text of the literal (line 191).
\<close>

theorem tokenRaw_written_counterexample:
  "tokenRaw (create (str ''3n'')) = [] \<and>
   rawOutcome (scanNumber noUnicodeStarts (create (str ''3n'')) {} {NumberKind_Decimal})
     = Inr (BigIntLiteral, str ''3n'')"
  by (simp add: rawOutcome_def scanNumber_defs scanNumber_loops number_defs)

section \<open>BigInt literals\<close>

text \<open>
  C4. The numerals \<^verbatim>\<open>3n\<close>, \<^verbatim>\<open>0x1Fn\<close>, \<^verbatim>\<open>0b11n\<close> and \<^verbatim>\<open>0o17n\<close> scan as
  BigInt literals with the values 3, 31, 3 and 15, in every context; \<^verbatim>\<open>1.5n\<close> and
  \<^verbatim>\<open>0008n\<close> raise an error and no token is returned.
\<close>

theorem bigint_literals:
  "outcome (scanNumber u (create (str ''3n'')) context {NumberKind_Decimal})
     = Inr (BigIntLiteral, Num (Fin 3)) \<and>
   outcome (scanNumber u (create (str ''0x1Fn'')) context {NumberKind_Decimal})
     = Inr (BigIntLiteral, Num (Fin 31)) \<and>
   outcome (scanNumber u (create (str ''0b11n'')) context {NumberKind_Decimal})
     = Inr (BigIntLiteral, Num (Fin 3)) \<and>
   outcome (scanNumber u (create (str ''0o17n'')) context {NumberKind_Decimal})
     = Inr (BigIntLiteral, Num (Fin 15)) \<and>
   scanNumber u (create (str ''1.5n'')) context {NumberKind_Decimal} = Inl IDStartAfterNumber \<and>
   scanNumber u (create (str ''0008n'')) context {NumberKind_Decimal}
     = Inl (if Context_Strict \<in> context then StrictOctalEscape else IDStartAfterNumber)"
  by (simp add: scanNumber_defs scanNumber_loops number_defs)

section \<open>Misplaced separators\<close>



section \<open>Decimal literals with a leading zero\<close>

text \<open>
  C6. For a literal that is a zero followed by decimal digits with an 8 or a 9 among
  them: in strict mode the scan raises \<^verbatim>\<open>StrictOctalEscape\<close>; outside strict mode it
  returns a \<^verbatim>\<open>NumericLiteral\<close> whose value is \<^verbatim>\<open>parseFloat\<close> of the raw text of
  the literal, which is the decimal value of its digits as a double, and not the base-8
  accumulator.
\<close>

theorem leading_zero_decimal:
  assumes input: "atInput p (Chars_Zero # ds @ rest)"
    and start: "tokenIndex p = index p"
    and digits: "list_all isDigit ds"
    and nonoctal: "56 \<in> set ds \<or> 57 \<in> set ds"
    and ends: "endsNumeral u rest" "headCP rest \<noteq> Some Chars_Period"
    and kind: "NumberKind_Float \<notin> kind"
  shows "outcome (scanNumber u p context kind) =
       (if Context_Strict \<in> context then Inl StrictOctalEscape
        else Inr (NumericLiteral, parseFloat (Chars_Zero # ds))) \<and>
     parseFloat (Chars_Zero # ds) = Num (roundDouble (decimalValue ds))"
proof
  from scanNumberZero_leading_zero [OF input digits nonoctal, of "context" kind]
  obtain q v r where zero: "scanNumberZero p context kind (Fin 0) 0 0 0 =
       (if Context_Strict \<in> context then Inl StrictOctalEscape
        else Inr (q, headCP (r @ rest), {NumberKind_DecimalWithLeadingZero}, v, 0, 0))"
    and q: "atInput q (r @ rest)" and r: "list_all isDigit r"
    and same: "source q = source p" "tokenIndex q = tokenIndex p"
      "index q + length r = index p + length (Chars_Zero # ds)"
    by blast
  from input have char: "nextCP p = Some Chars_Zero" and src: "drop (index p) (source p) = (Chars_Zero # ds) @ rest"
    by (simp_all add: atInput_def)
  have stop: "CharTypes (headCP rest) \<inter> {CharFlags_Decimal, CharFlags_Underscore} = {}"
    by (rule endsNumeral_stop [OF ends(1)]) simp
  note run = digitRun_stop [OF digits_no_separator(1) [OF r] stop]
  have fraction: "scanNumberFraction q {NumberKind_DecimalWithLeadingZero} v (headCP (r @ rest)) =
      Inr (advance q (length r), {NumberKind_DecimalWithLeadingZero}, concatAny (Num v) r, headCP rest)"
  proof (cases rest)
    case Nil
    with scanNumberFraction_any [OF q, of "{NumberKind_DecimalWithLeadingZero}" v, unfolded run]
    show ?thesis
      by (simp add: digits_no_separator [OF r])
  next
    case (Cons c ys)
    with ends(2) have "c \<noteq> Chars_Period" by simp
    with Cons scanNumberFraction_any [OF q, of "{NumberKind_DecimalWithLeadingZero}" v, unfolded run]
    show ?thesis
      by (simp add: digits_no_separator [OF r])
  qed
  have raw: "substring (source p) (index p) (Suc (index p + length ds)) = Chars_Zero # ds"
    using substring_input [OF src] by simp
  show "outcome (scanNumber u p context kind) =
       (if Context_Strict \<in> context then Inl StrictOctalEscape
        else Inr (NumericLiteral, parseFloat (Chars_Zero # ds)))"
    using kind
    by (simp add: scanNumber_def char zero scanNumberTail_def scanNumberDecimal_def DecimalNumberKind_def fraction
        scanNumberSuffix_end [OF ends(1)] same start raw)
  show "parseFloat (Chars_Zero # ds) = Num (roundDouble (decimalValue ds))"
    by (rule decimalValue_digits [OF digits])
qed

text \<open>The theorem at \<^verbatim>\<open>078\<close> and \<^verbatim>\<open>08\<close>, and at \<^verbatim>\<open>078\<close> in strict mode.\<close>

theorem leading_zero_decimal_witness:
  "outcome (scanNumber noUnicodeStarts (create (str ''078'')) {} {NumberKind_Decimal}) =
     Inr (NumericLiteral, Num (Fin 78)) \<and>
   outcome (scanNumber noUnicodeStarts (create (str ''08'')) {} {NumberKind_Decimal}) =
     Inr (NumericLiteral, Num (Fin 8)) \<and>
   outcome (scanNumber noUnicodeStarts (create (str ''078'')) {Context_Strict} {NumberKind_Decimal}) =
     Inl StrictOctalEscape"
  using leading_zero_decimal [of "create (str ''078'')" "str ''78''" "[]" noUnicodeStarts
      "{NumberKind_Decimal}" "{}"]
    leading_zero_decimal [of "create (str ''08'')" "str ''8''" "[]" noUnicodeStarts
      "{NumberKind_Decimal}" "{}"]
    leading_zero_decimal [of "create (str ''078'')" "str ''78''" "[]" noUnicodeStarts
      "{NumberKind_Decimal}" "{Context_Strict}"]
  by (simp add: atInput_def create_def str_def charCodeAt_def endsNumeral_def isDigit_def
      roundDouble_def)

section \<open>The character after a numeral\<close>

text \<open>
  C7. The octal literal \<^verbatim>\<open>0o17\<close> followed by the identifier start \<^verbatim>\<open>e\<close> and a
  digit is not rejected: the exponent of lines 165 to 181 is consumed after a literal of any
  kind, and the scan of \<^verbatim>\<open>0o17e5\<close> returns a \<^verbatim>\<open>NumericLiteral\<close> whose value is
  the string \<^verbatim>\<open>15e5\<close>.
\<close>

theorem radix_exponent_accepted:
  "outcome (scanNumber u (create (str ''0o17e5'')) context {NumberKind_Decimal}) =
     Inr (NumericLiteral, Str (str ''15e5'')) \<and>
   outcome (scanNumber u (create (str ''0o17'')) context {NumberKind_Decimal}) =
     Inr (NumericLiteral, Num (Fin 15)) \<and>
   isIdentifierStart u (Some Chars_LowerE)"
  by (simp add: scanNumber_defs scanNumber_loops number_defs)

section \<open>The exponent\<close>



section \<open>Function declarations as the body of an if statement\<close>

text \<open>
  C9. The source \<^verbatim>\<open>if (true) function foo() {}\<close>, parsed as a statement in sloppy mode, is
  rejected under the default configuration, and under the web-compatibility option it parses to a
  program whose \<^verbatim>\<open>if\<close> statement has the function declaration as its consequent.
\<close>

theorem if_function_declaration:
  "parseSource (str ''if (true) function foo() {}'') {} = Inl DisallowedFunctionDeclaration \<and>
   parseSource (str ''if (true) function foo() {}'') {Context_OptionsWebCompat} =
     Inr (Program [IfStatement (Literal True) (FunctionDeclaration (str ''foo'') []) None]) \<and>
   hasFunctionDeclaration
     (Program [IfStatement (Literal True) (FunctionDeclaration (str ''foo'') []) None])"
  by (simp add: parseSource_def tokens_example parsePrimaryExpression_def)

section \<open>The fast path and the general path\<close>

text \<open>
  The part of lines 118 to 155 is entered with the local \<^verbatim>\<open>atStart\<close>. With
  \<^verbatim>\<open>atStart\<close> set it runs the loop of lines 120 to 131 and may return the token at
  once (the fast path); with \<^verbatim>\<open>atStart\<close> clear it accumulates the digits as a string
  and the token is made at the end of the function (the general path). In
  \<^verbatim>\<open>scanNumber\<close> as it is written, \<^verbatim>\<open>atStart\<close> is 1 only for
  \<^verbatim>\<open>NumberKind.Float\<close> (line 21), which skips this part, so the part is always entered
  with \<^verbatim>\<open>atStart\<close> clear.
\<close>

lemma atStart_clear:
  assumes "scanNumberZero p context kind v 0 d a = Inr (p', c', k', v', atStart', a')"
  shows "atStart' = 0"
  using sameToken_scanNumberZero [OF assms] by simp



end
